theory Spec2Isabelle
  imports Complex_Main "HOL-Library.Word" "HOL-Library.Log_Nat"
begin

unbundle bit_operations_syntax

section \<open>Numbers\<close>

text \<open>
  The program computes with JavaScript numbers, which are IEEE 754 doubles. Two models
  are used. In the first, finite numbers are \<^typ>\<open>real\<close> and the arithmetic is exact,
  without rounding error and without overflow; it serves the properties that do not depend
  on the last bit of a result (ranges, signs, counts, sums of weights). In the second, of
  the colour conversion and the histogram builder (\<open>rgbToHsl_f64\<close>,
  \<open>extractHueHistogram_f64\<close>), every operation is followed by the rounding to the
  nearest double; it serves the claim that fixes the bin and the weight of each pixel.
  Array indices and the integers produced by \<open>Math.round\<close>, \<open>Math.floor\<close> and
  \<open>Math.ceil\<close> are \<^typ>\<open>int\<close>. \<open>Math.round x\<close> is \<open>floor (x + 0.5)\<close>.
\<close>

definition js_round :: "real \<Rightarrow> int" where
  "js_round x = \<lfloor>x + 1 / 2\<rfloor>"

section \<open>Colour space conversion\<close>

text \<open>\<open>rgbToHsl(r, g, b)\<close>: the \<open>switch (max)\<close> tests \<open>r\<close>, \<open>g\<close>, \<open>b\<close> in this order.\<close>

definition rgbToHsl :: "real \<Rightarrow> real \<Rightarrow> real \<Rightarrow> int \<times> int \<times> int" where
  "rgbToHsl r0 g0 b0 =
     (let r = r0 / 255; g = g0 / 255; b = b0 / 255;
          mx = max (max r g) b;
          mn = min (min r g) b;
          l = (mx + mn) / 2;
          d = mx - mn;
          s = (if mx \<noteq> mn
               then (if l > 1 / 2 then d / (2 - mx - mn) else d / (mx + mn))
               else 0);
          h = (if mx \<noteq> mn
               then (if mx = r then ((g - b) / d + (if g < b then 6 else 0)) / 6
                     else if mx = g then ((b - r) / d + 2) / 6
                     else if mx = b then ((r - g) / d + 4) / 6
                     else 0)
               else 0)
      in (js_round (h * 360), js_round (s * 100), js_round (l * 100)))"

text \<open>The local function \<open>hue2rgb\<close> of \<open>hslToRgb\<close>; its two adjustments of \<open>t\<close> run in sequence.\<close>

definition hue2rgb :: "real \<Rightarrow> real \<Rightarrow> real \<Rightarrow> real" where
  "hue2rgb p q t0 =
     (let t1 = (if t0 < 0 then t0 + 1 else t0);
          t = (if t1 > 1 then t1 - 1 else t1)
      in if t < 1 / 6 then p + (q - p) * 6 * t
         else if t < 1 / 2 then q
         else if t < 2 / 3 then p + (q - p) * (2 / 3 - t) * 6
         else p)"

definition hslToRgb :: "real \<Rightarrow> real \<Rightarrow> real \<Rightarrow> int \<times> int \<times> int" where
  "hslToRgb h0 s0 l0 =
     (let h = h0 / 360; s = s0 / 100; l = l0 / 100
      in if s = 0
         then (js_round (l * 255), js_round (l * 255), js_round (l * 255))
         else (let q = (if l < 1 / 2 then l * (1 + s) else l + s - l * s);
                   p = 2 * l - q
               in (js_round (hue2rgb p q (h + 1 / 3) * 255),
                   js_round (hue2rgb p q h * 255),
                   js_round (hue2rgb p q (h - 1 / 3) * 255))))"

text \<open>The composition \<open>hslToRgb(...rgbToHsl(r, g, b))\<close>.\<close>

definition roundTrip :: "real \<Rightarrow> real \<Rightarrow> real \<Rightarrow> int \<times> int \<times> int" where
  "roundTrip r g b = (case rgbToHsl r g b of (h, s, l) \<Rightarrow> hslToRgb (of_int h) (of_int s) (of_int l))"


text \<open>
  \<open>rgbToLab(r, g, b)\<close>. The source writes the gamma expansion and the Lab transfer
  function out once per channel; they are \<open>gammaExpand\<close> and \<open>labF\<close> here.
  \<open>Math.pow\<close> is only applied to positive bases, where it is \<open>powr\<close>.
\<close>

definition gammaExpand :: "real \<Rightarrow> real" where
  "gammaExpand c = (if c > 0.04045 then ((c + 0.055) / 1.055) powr 2.4 else c / 12.92)"

definition labF :: "real \<Rightarrow> real" where
  "labF t = (if t > 0.008856 then t powr (1 / 3) else 7.787 * t + 16 / 116)"

definition rgbToLab :: "real \<Rightarrow> real \<Rightarrow> real \<Rightarrow> real \<times> real \<times> real" where
  "rgbToLab r g b =
     (let rr = gammaExpand (r / 255) * 100;
          gg = gammaExpand (g / 255) * 100;
          bb = gammaExpand (b / 255) * 100;
          x = rr * 0.4124564 + gg * 0.3575761 + bb * 0.1804375;
          y = rr * 0.2126729 + gg * 0.7151522 + bb * 0.072175;
          z = rr * 0.0193339 + gg * 0.119192 + bb * 0.9503041;
          xx = labF (x / 95.047);
          yy = labF (y / 100.0);
          zz = labF (z / 108.883)
      in (116 * yy - 16, 500 * (xx - yy), 200 * (yy - zz)))"

text \<open>\<open>Math.atan2(y, x)\<close>, in radians.\<close>

definition atan2 :: "real \<Rightarrow> real \<Rightarrow> real" where
  "atan2 y x =
     (if x > 0 then arctan (y / x)
      else if x < 0 then (if y \<ge> 0 then arctan (y / x) + pi else arctan (y / x) - pi)
      else if y > 0 then pi / 2
      else if y < 0 then - pi / 2
      else 0)"

text \<open>\<open>deltaE2000(lab1, lab2)\<close>, the CIEDE2000 colour difference.\<close>

definition deltaE2000 :: "real \<times> real \<times> real \<Rightarrow> real \<times> real \<times> real \<Rightarrow> real" where
  "deltaE2000 lab1 lab2 =
     (case lab1 of (L1, a1, b1) \<Rightarrow> case lab2 of (L2, a2, b2) \<Rightarrow>
      let kL = 1; kC = 1; kH = 1;
          C1 = sqrt (a1 * a1 + b1 * b1);
          C2 = sqrt (a2 * a2 + b2 * b2);
          Cb = (C1 + C2) / 2;
          G = 0.5 * (1 - sqrt (Cb ^ 7 / (Cb ^ 7 + 25 ^ 7)));
          a1p = a1 * (1 + G);
          a2p = a2 * (1 + G);
          C1p = sqrt (a1p * a1p + b1 * b1);
          C2p = sqrt (a2p * a2p + b2 * b2);
          h1p = atan2 b1 a1p * (180 / pi);
          h2p = atan2 b2 a2p * (180 / pi);
          h1pMod = (if h1p < 0 then h1p + 360 else h1p);
          h2pMod = (if h2p < 0 then h2p + 360 else h2p);
          dLp = L2 - L1;
          dCp = C2p - C1p;
          dhp = (if C1p * C2p = 0 then 0
                 else if \<bar>h2pMod - h1pMod\<bar> \<le> 180 then h2pMod - h1pMod
                 else if h2pMod - h1pMod > 180 then h2pMod - h1pMod - 360
                 else h2pMod - h1pMod + 360);
          dHp = 2 * sqrt (C1p * C2p) * sin ((dhp * pi) / 360);
          Lbp = (L1 + L2) / 2;
          Cbp = (C1p + C2p) / 2;
          Hbp = (if C1p * C2p = 0 then h1pMod + h2pMod
                 else if \<bar>h1pMod - h2pMod\<bar> \<le> 180 then (h1pMod + h2pMod) / 2
                 else if h1pMod + h2pMod < 360 then (h1pMod + h2pMod + 360) / 2
                 else (h1pMod + h2pMod - 360) / 2);
          T = 1 - 0.17 * cos (((Hbp - 30) * pi) / 180)
                + 0.24 * cos ((2 * Hbp * pi) / 180)
                + 0.32 * cos (((3 * Hbp + 6) * pi) / 180)
                - 0.2 * cos (((4 * Hbp - 63) * pi) / 180);
          SL = 1 + (0.015 * (Lbp - 50) ^ 2) / sqrt (20 + (Lbp - 50) ^ 2);
          SC = 1 + 0.045 * Cbp;
          SH = 1 + 0.015 * Cbp * T;
          RT = - 2 * sqrt (Cbp ^ 7 / (Cbp ^ 7 + 25 ^ 7))
                 * sin ((60 * exp (- (((Hbp - 275) / 25) ^ 2)) * pi) / 180)
      in sqrt ((dLp / (kL * SL)) ^ 2 + (dCp / (kC * SC)) ^ 2 + (dHp / (kH * SH)) ^ 2
               + RT * (dCp / (kC * SC)) * (dHp / (kH * SH))))"

section \<open>Histogram processing\<close>

text \<open>
  The remainder operator \<open>%\<close> of JavaScript truncates towards zero: the result has the
  sign of the dividend. \<open>circularIndex(i, n)\<close> is \<open>((i % n) + n) % n\<close>.
\<close>

definition js_rem :: "int \<Rightarrow> int \<Rightarrow> int" where
  "js_rem a n = sgn a * (\<bar>a\<bar> mod \<bar>n\<bar>)"

definition circularIndex :: "int \<Rightarrow> int \<Rightarrow> int" where
  "circularIndex i n = js_rem (js_rem i n + n) n"

text \<open>
  The bitwise \<open>|\<close> first converts its operand to a signed 32-bit integer (\<open>ToInt32\<close>).
\<close>

definition toInt32 :: "int \<Rightarrow> int" where
  "toInt32 x = (x + 2 ^ 31) mod 2 ^ 32 - 2 ^ 31"

text \<open>
  \<open>generateGaussianKernel(sigma, size)\<close>: the loop runs \<open>i\<close> from \<open>-half\<close> to \<open>half\<close>
  with \<open>half = floor(size / 2)\<close>, so the kernel has \<open>2 * half + 1\<close> entries.
\<close>

definition generateGaussianKernel :: "real \<Rightarrow> int \<Rightarrow> real list" where
  "generateGaussianKernel sigma sz =
     (let half = sz div 2;
          vals = map (\<lambda>i. exp (- (of_int (i * i)) / (2 * sigma * sigma))) [- half..half];
          total = sum_list vals
      in map (\<lambda>v. v / total) vals)"

text \<open>
  \<open>gaussianSmooth(histogram, sigma)\<close>. Inside the loops \<open>0 < kernelSize \<le> n\<close>, so
  \<open>i + j - half + n\<close> is not negative, the index \<open>idx\<close> is below \<open>n\<close>, and \<open>j\<close> is
  below the length of the kernel: every array read is in range.
\<close>

definition gaussianSmooth :: "real list \<Rightarrow> real \<Rightarrow> real list" where
  "gaussianSmooth hist sigma =
     (let n = int (length hist);
          kernelSize = min (toInt32 \<lceil>sigma * 6\<rceil> OR 1) n;
          kernel = generateGaussianKernel sigma kernelSize;
          half = kernelSize div 2
      in map (\<lambda>i. sum_list (map (\<lambda>j. hist ! nat (js_rem (i + j - half + n) n) * kernel ! nat j)
                                 [0..kernelSize - 1]))
             [0..n - 1])"

record HistogramData =
  histogram :: "real list"
  saturationSum :: "real list"
  lightnessSum :: "real list"

text \<open>
  \<open>ImageData.data\<close> is a \<open>Uint8ClampedArray\<close> whose length is four times the number of
  pixels: the buffer is modelled as the list of its pixels \<open>(r, g, b, a)\<close>, each channel
  a byte. \<open>new Array(bins)\<close> throws a \<open>RangeError\<close> unless \<open>bins\<close> is an integer
  between \<open>0\<close> and \<open>2^32 - 1\<close>. Reading a field of \<open>undefined\<close>, which is what
  an array of objects gives outside its indices, throws a \<open>TypeError\<close>.
\<close>

type_synonym pixel = "8 word \<times> 8 word \<times> 8 word \<times> 8 word"

datatype error = RangeError | TypeError

text \<open>
  The body of the pixel loop of \<open>extractHueHistogram\<close>. With \<open>bins = 0\<close> the index
  \<open>0 % 0\<close> is \<open>NaN\<close>, which names no element of the (empty) arrays.
\<close>

definition accumulatePixel :: "int \<Rightarrow> pixel \<Rightarrow> HistogramData \<Rightarrow> HistogramData" where
  "accumulatePixel bins px acc =
     (case px of (r, g, b, a) \<Rightarrow>
        if unat a < 200 then acc
        else (case rgbToHsl (real (unat r)) (real (unat g)) (real (unat b)) of
                (hue, saturation, lightness) \<Rightarrow>
          if saturation < 10 \<or> lightness < 5 \<or> lightness > 95 then acc
          else if bins = 0 then acc
          else (let weight = (of_int saturation / 100) * (1 - \<bar>of_int lightness - 50\<bar> / 50);
                    binSize = (360 / of_int bins :: real);
                    binIndex = nat (js_rem \<lfloor>of_int hue / binSize\<rfloor> bins)
                in \<lparr>histogram = (histogram acc)[binIndex := histogram acc ! binIndex + weight],
                    saturationSum = (saturationSum acc)
                      [binIndex := saturationSum acc ! binIndex + of_int saturation * weight],
                    lightnessSum = (lightnessSum acc)
                      [binIndex := lightnessSum acc ! binIndex + of_int lightness * weight]\<rparr>)))"

definition emptyHistogram :: "int \<Rightarrow> HistogramData" where
  "emptyHistogram bins =
     \<lparr>histogram = replicate (nat bins) 0,
      saturationSum = replicate (nat bins) 0,
      lightnessSum = replicate (nat bins) 0\<rparr>"

definition extractHueHistogram :: "pixel list \<Rightarrow> int \<Rightarrow> error + HistogramData" where
  "extractHueHistogram imageData bins =
     (if bins < 0 \<or> bins \<ge> 2 ^ 32 then Inl RangeError
      else Inr (fold (accumulatePixel bins) imageData (emptyHistogram bins)))"

section \<open>Double-precision arithmetic\<close>

text \<open>
  Every arithmetic operation of the program is an operation on IEEE 754 doubles: the
  exact result, rounded to the nearest double, ties to the even mantissa. \<open>rne\<close> rounds
  a real to the nearest integer, ties to even. \<open>roundTo a p x\<close> is the number nearest
  to \<open>x\<close> in the binary format with \<open>p\<close> fraction bits and least exponent \<open>- a\<close>:
  with \<open>2^e \<le> |x| < 2^(e + 1)\<close> the numbers of the format around \<open>x\<close> are the
  multiples of \<open>2^(e - p)\<close>, and below \<open>2^(- a)\<close> (the subnormal numbers) they are
  the multiples of \<open>2^(- a - p)\<close>; in the definition \<open>k\<close> is \<open>e + a\<close>, or 0 for
  a subnormal \<open>x\<close>. A double has 52 fraction bits and least exponent \<open>- 1022\<close>:
  \<open>fl x\<close> is the double nearest to \<open>x\<close>. Overflow to an infinity, above \<open>2^1024\<close>,
  is not modelled.
\<close>

definition rne :: "real \<Rightarrow> int" where
  "rne y = (let f = \<lfloor>y\<rfloor>
            in if y - of_int f < 1 / 2 then f
               else if y - of_int f > 1 / 2 then f + 1
               else if even f then f else f + 1)"

definition roundTo :: "nat \<Rightarrow> nat \<Rightarrow> real \<Rightarrow> real" where
  "roundTo a p x = (let k = nat (bitlen \<lfloor>\<bar>x\<bar> * 2 ^ a\<rfloor> - 1)
                    in of_int (rne (x * 2 ^ (a + p) / 2 ^ k)) * 2 ^ k / 2 ^ (a + p))"

definition fl :: "real \<Rightarrow> real" where
  "fl = roundTo 1022 52"

text \<open>
  \<open>rgbToHsl\<close> in double arithmetic, operation by operation. \<open>Math.max\<close>,
  \<open>Math.min\<close> and the comparisons are exact; \<open>2 - max - min\<close> is
  \<open>(2 - max) - min\<close>. \<open>Math.round\<close> is exact on the double it is given.
\<close>

definition rgbToHsl_f64 :: "real \<Rightarrow> real \<Rightarrow> real \<Rightarrow> int \<times> int \<times> int" where
  "rgbToHsl_f64 r0 g0 b0 =
     (let r = fl (r0 / 255); g = fl (g0 / 255); b = fl (b0 / 255);
          mx = max (max r g) b;
          mn = min (min r g) b;
          l = fl (fl (mx + mn) / 2);
          d = fl (mx - mn);
          s = (if mx \<noteq> mn
               then (if l > 1 / 2 then fl (d / fl (fl (2 - mx) - mn)) else fl (d / fl (mx + mn)))
               else 0);
          h = (if mx \<noteq> mn
               then (if mx = r then fl (fl (fl (fl (g - b) / d) + (if g < b then 6 else 0)) / 6)
                     else if mx = g then fl (fl (fl (fl (b - r) / d) + 2) / 6)
                     else if mx = b then fl (fl (fl (fl (r - g) / d) + 4) / 6)
                     else 0)
               else 0)
      in (js_round (fl (h * 360)), js_round (fl (s * 100)), js_round (fl (l * 100))))"



section \<open>Peak extraction\<close>

text \<open>The source field \<open>value\<close> of a local peak is \<open>pvalue\<close> here.\<close>

record LocalPeak =
  index :: int
  pvalue :: real
  leftValley :: int
  rightValley :: int

record HuePeak =
  startHue :: int
  endHue :: int
  peakHue :: int
  peakValue :: real
  totalWeight :: real
  avgSaturation :: "real option"
  avgLightness :: "real option"

definition isLocalPeak :: "real list \<Rightarrow> nat \<Rightarrow> bool" where
  "isLocalPeak hist i =
     (let n = int (length hist);
          prev = hist ! nat (circularIndex (int i - 1) n);
          curr = hist ! i;
          next = hist ! nat (circularIndex (int i + 1) n)
      in (curr > prev \<and> curr \<ge> next) \<or> (curr \<ge> prev \<and> curr > next))"

definition findLocalPeaks :: "real list \<Rightarrow> LocalPeak list" where
  "findLocalPeaks hist =
     map (\<lambda>i. \<lparr>index = int i, pvalue = hist ! i, leftValley = - 1, rightValley = - 1\<rparr>)
         (filter (isLocalPeak hist) [0..<length hist])"

text \<open>
  The two valley searches of \<open>findValleys\<close> walk \<open>j\<close> around the ring, one bin at a
  time, until it meets the index of the neighbouring peak. \<open>walkDist\<close> is the number of
  steps left; it is the termination measure of the walk. Both \<open>j\<close> and \<open>stop\<close> are
  results of \<open>circularIndex\<close> or indices of peaks, hence inside the array; the walk
  is only defined there.
\<close>

definition walkDist :: "int \<Rightarrow> int \<Rightarrow> int \<Rightarrow> int \<Rightarrow> nat" where
  "walkDist step stop j n =
     nat (if step = 1 then (if j \<le> stop then stop - j else stop - j + n)
          else (if stop \<le> j then j - stop else j - stop + n))"

function valleyWalk :: "real list \<Rightarrow> int \<Rightarrow> int \<Rightarrow> int \<Rightarrow> int \<Rightarrow> real \<Rightarrow> int" where
  "valleyWalk hist step stop j valleyIdx valleyVal =
     (let n = int (length hist)
      in if j = stop \<or> \<not> (0 \<le> j \<and> j < n \<and> 0 \<le> stop \<and> stop < n \<and> (step = 1 \<or> step = - 1))
         then valleyIdx
         else if hist ! nat j < valleyVal
              then valleyWalk hist step stop (circularIndex (j + step) n) j (hist ! nat j)
              else valleyWalk hist step stop (circularIndex (j + step) n) valleyIdx valleyVal)"
  by pat_completeness auto

termination
proof (relation "measure (\<lambda>(hist, step, stop, j, vi, vv). walkDist step stop j (int (length hist)))")
  show "wf (measure (\<lambda>(hist, step, stop, j, vi, vv). walkDist step stop j (int (length hist))))"
    by simp
next
  fix hist :: "real list" and step stop j valleyIdx :: int and valleyVal :: real and n :: int
  assume n: "n = int (length hist)"
    and c: "\<not> (j = stop \<or> \<not> (0 \<le> j \<and> j < n \<and> 0 \<le> stop \<and> stop < n \<and> (step = 1 \<or> step = - 1)))"
  then have r: "0 \<le> j" "j < n" by simp_all
  have up: "circularIndex (j + 1) n = (if j = n - 1 then 0 else j + 1)"
    using r by (auto simp: circularIndex_def js_rem_def sgn_if)
  have down: "circularIndex (j - 1) n = (if j = 0 then n - 1 else j - 1)"
  proof (cases "n = 1")
    case True
    with r show ?thesis by (simp add: circularIndex_def js_rem_def)
  next
    case False
    with r have "1 mod n = 1" by simp
    with r show ?thesis by (auto simp: circularIndex_def js_rem_def sgn_if zmod_minus1)
  qed
  from c have "walkDist step stop (circularIndex (j + step) n) n < walkDist step stop j n"
    using up down
    by (auto simp: walkDist_def split: if_splits)
  then show "((hist, step, stop, circularIndex (j + step) n, j, hist ! nat j),
              (hist, step, stop, j, valleyIdx, valleyVal))
             \<in> measure (\<lambda>(hist, step, stop, j, vi, vv). walkDist step stop j (int (length hist)))"
    using n by simp
  then show "((hist, step, stop, circularIndex (j + step) n, valleyIdx, valleyVal),
              (hist, step, stop, j, valleyIdx, valleyVal))
             \<in> measure (\<lambda>(hist, step, stop, j, vi, vv). walkDist step stop j (int (length hist)))"
    by simp
qed


declare valleyWalk.simps [simp del]

text \<open>
  The body of the loop of \<open>findValleys\<close> for the peak at position \<open>i\<close>. It writes the
  two valley fields of that peak and only reads the indices of its neighbours, which no
  iteration changes.
\<close>

definition assignValleys :: "LocalPeak list \<Rightarrow> real list \<Rightarrow> nat \<Rightarrow> LocalPeak" where
  "assignValleys peaks hist i =
     (let n = int (length hist);
          peak = peaks ! i;
          prevPeak = peaks ! nat (circularIndex (int i - 1) (int (length peaks)));
          nextPeak = peaks ! nat (circularIndex (int i + 1) (int (length peaks)))
      in peak\<lparr>leftValley := valleyWalk hist (- 1) (index prevPeak)
                                (circularIndex (index peak - 1) n) (index peak) (pvalue peak),
               rightValley := valleyWalk hist 1 (index nextPeak)
                                (circularIndex (index peak + 1) n) (index peak) (pvalue peak)\<rparr>)"

definition findValleys :: "LocalPeak list \<Rightarrow> real list \<Rightarrow> LocalPeak list" where
  "findValleys peaks hist =
     (let n = int (length hist)
      in if length peaks = 1
         then [(peaks ! 0)\<lparr>leftValley := circularIndex (index (peaks ! 0) + 1) n,
                           rightValley := index (peaks ! 0)\<rparr>]
         else map (assignValleys peaks hist) [0..<length peaks])"

text \<open>
  An array read \<open>xs[i]\<close> gives \<open>undefined\<close> outside the array, and arithmetic on
  \<open>undefined\<close> gives \<open>NaN\<close>. The sums and averages of saturation and lightness are
  therefore \<^typ>\<open>real option\<close>, where \<open>None\<close> stands for a value that is not a
  finite number (\<open>NaN\<close> or an infinity).
\<close>

definition js_get :: "real list \<Rightarrow> int \<Rightarrow> real option" where
  "js_get xs i = (if 0 \<le> i \<and> i < int (length xs) then Some (xs ! nat i) else None)"

definition nan_add :: "real option \<Rightarrow> real option \<Rightarrow> real option" where
  "nan_add a b = (case (a, b) of (Some x, Some y) \<Rightarrow> Some (x + y) | _ \<Rightarrow> None)"

definition hueDistance :: "int \<Rightarrow> int \<Rightarrow> int \<Rightarrow> int" where
  "hueDistance n idx1 idx2 = (let diff = \<bar>idx2 - idx1\<bar> in min diff (n - diff))"

text \<open>
  One round of the inner loop of \<open>mergeAdjacentPeaks\<close>, for the pair that starts at
  position \<open>i\<close>. Were \<open>curr.rightValley\<close> outside the histogram, the valley value
  would be \<open>undefined\<close> and the score \<open>NaN\<close>, which is not greater than any best
  score: the pair is passed over.
\<close>

definition scanPair :: "real list \<Rightarrow> LocalPeak list \<Rightarrow> nat \<Rightarrow> int \<times> real \<Rightarrow> int \<times> real" where
  "scanPair hist peaks i best =
     (case best of (bestIdx, bestScore) \<Rightarrow>
      let n = int (length hist);
          curr = peaks ! i;
          next = peaks ! ((i + 1) mod length peaks);
          minPeakValue = min (pvalue curr) (pvalue next)
      in if minPeakValue > 0
         then (case js_get hist (rightValley curr) of
                 None \<Rightarrow> (bestIdx, bestScore)
               | Some valleyValue \<Rightarrow>
                   let valleyRatio = valleyValue / minPeakValue;
                       distance = hueDistance n (index curr) (index next);
                       distanceFactor = 1 - of_int distance / (of_int n / 2);
                       score = valleyRatio * (0.5 + 0.5 * distanceFactor)
                   in if score > bestScore then (int i, score) else (bestIdx, bestScore))
         else (bestIdx, bestScore))"

definition findBestPair :: "real list \<Rightarrow> LocalPeak list \<Rightarrow> int" where
  "findBestPair hist peaks = fst (fold (scanPair hist peaks) [0..<length peaks] (- 1, - 1))"

definition splice1 :: "'a list \<Rightarrow> nat \<Rightarrow> 'a list" where
  "splice1 xs i = take i xs @ drop (Suc i) xs"

definition mergePair :: "LocalPeak list \<Rightarrow> nat \<Rightarrow> LocalPeak list" where
  "mergePair peaks bestIdx =
     (let curr = peaks ! bestIdx;
          nextIdx = (bestIdx + 1) mod length peaks;
          next = peaks ! nextIdx
      in if pvalue curr \<ge> pvalue next
         then splice1 (peaks[bestIdx := curr\<lparr>rightValley := rightValley next\<rparr>]) nextIdx
         else splice1 (peaks[nextIdx := next\<lparr>leftValley := leftValley curr\<rparr>]) bestIdx)"

function mergeAdjacentPeaks :: "LocalPeak list \<Rightarrow> real list \<Rightarrow> int \<Rightarrow> LocalPeak list" where
  "mergeAdjacentPeaks peaks hist maxPeaks =
     (if int (length peaks) > maxPeaks \<and> findBestPair hist peaks \<ge> 0
      then mergeAdjacentPeaks (mergePair peaks (nat (findBestPair hist peaks))) hist maxPeaks
      else peaks)"
  by pat_completeness auto
termination
proof (relation "measure (\<lambda>(peaks, hist, maxPeaks). length peaks)")
  show "wf (measure (\<lambda>(peaks, hist, maxPeaks). length peaks))" by simp
next
  fix peaks :: "LocalPeak list" and hist :: "real list" and maxPeaks :: int
  assume a: "maxPeaks < int (length peaks) \<and> 0 \<le> findBestPair hist peaks"
  have inv: "fst (fold (scanPair hist peaks) is b) = fst b \<or> fst (fold (scanPair hist peaks) is b) \<in> int ` set is"
    for "is" b
  proof (induction "is" arbitrary: b)
    case Nil
    show ?case by simp
  next
    case (Cons i "is")
    have "fst (scanPair hist peaks i b) = fst b \<or> fst (scanPair hist peaks i b) = int i"
      by (cases b) (simp add: scanPair_def Let_def split: option.splits)
    with Cons[of "scanPair hist peaks i b"] show ?case by auto
  qed
  from inv[of "[0..<length peaks]" "(- 1, - 1)"] a
  have lt: "nat (findBestPair hist peaks) < length peaks"
    by (auto simp: findBestPair_def)
  define k where "k = nat (findBestPair hist peaks)"
  have sp: "length (splice1 xs i) < length xs" if "i < length xs" for xs :: "LocalPeak list" and i
    using that by (simp add: splice1_def)
  have kl: "k < length peaks"
    using lt unfolding k_def[symmetric] by simp
  then have "0 < length peaks" by (cases peaks) simp_all
  then have "(k + 1) mod length peaks < length peaks"
    by (rule mod_less_divisor)
  with kl have "length (mergePair peaks k) < length peaks"
    using sp[of k "peaks[(k + 1) mod length peaks := u]" for u]
      sp[of "(k + 1) mod length peaks" "peaks[k := u]" for u]
    by (simp add: mergePair_def Let_def)
  then show "((mergePair peaks (nat (findBestPair hist peaks)), hist, maxPeaks), (peaks, hist, maxPeaks))
        \<in> measure (\<lambda>(peaks, hist, maxPeaks). length peaks)"
    by (simp add: k_def)
qed


declare mergeAdjacentPeaks.simps [simp del]

function arcTotals ::
  "real list \<Rightarrow> real list \<Rightarrow> real list \<Rightarrow> int \<Rightarrow> int \<Rightarrow> real \<Rightarrow> real option \<Rightarrow> real option
     \<Rightarrow> real \<times> real option \<times> real option" where
  "arcTotals hist satSum lightSum stop j totalWeight0 totalSat0 totalLight0 =
     (let n = int (length hist);
          totalWeight1 = totalWeight0 + hist ! nat j;
          totalSat1 = nan_add totalSat0 (js_get satSum j);
          totalLight1 = nan_add totalLight0 (js_get lightSum j)
      in if j = stop \<or> \<not> (0 \<le> j \<and> j < n \<and> 0 \<le> stop \<and> stop < n)
         then (totalWeight1, totalSat1, totalLight1)
         else arcTotals hist satSum lightSum stop (circularIndex (j + 1) n)
                totalWeight1 totalSat1 totalLight1)"
  by pat_completeness auto
termination
proof (relation "measure (\<lambda>(hist, satSum, lightSum, stop, j, w, s, l).
                            walkDist 1 stop j (int (length hist)))")
  show "wf (measure (\<lambda>(hist, satSum, lightSum, stop, j, w, s, l).
                            walkDist 1 stop j (int (length hist))))"
    by simp
next
  fix hist satSum lightSum :: "real list" and stop j n :: int
    and totalWeight0 totalWeight1 :: real and totalSat0 totalLight0 totalSat1 totalLight1 :: "real option"
  assume n: "n = int (length hist)"
    and c: "\<not> (j = stop \<or> \<not> (0 \<le> j \<and> j < n \<and> 0 \<le> stop \<and> stop < n))"
  then have r: "0 \<le> j" "j < n" by simp_all
  have up: "circularIndex (j + 1) n = (if j = n - 1 then 0 else j + 1)"
    using r by (auto simp: circularIndex_def js_rem_def sgn_if)
  from c have "walkDist 1 stop (circularIndex (j + 1) n) n < walkDist 1 stop j n"
    using up
    by (auto simp: walkDist_def split: if_splits)
  then show "((hist, satSum, lightSum, stop, circularIndex (j + 1) n, totalWeight1, totalSat1, totalLight1),
              (hist, satSum, lightSum, stop, j, totalWeight0, totalSat0, totalLight0))
             \<in> measure (\<lambda>(hist, satSum, lightSum, stop, j, w, s, l).
                            walkDist 1 stop j (int (length hist)))"
    using n by simp
qed

declare arcTotals.simps [simp del]

definition average :: "real \<Rightarrow> real option \<Rightarrow> real option" where
  "average totalWeight0 totalSum =
     (if totalWeight0 > 0 then map_option (\<lambda>t. t / totalWeight0) totalSum else Some 50)"

text \<open>The function that \<open>convertToHuePeaks\<close> maps over the local peaks.\<close>

definition toHuePeak :: "real list \<Rightarrow> real list \<Rightarrow> real list \<Rightarrow> LocalPeak \<Rightarrow> HuePeak" where
  "toHuePeak hist satSum lightSum peak =
     (let n = int (length hist);
          startIdx = circularIndex (leftValley peak) n;
          endIdx = circularIndex (rightValley peak) n
      in case arcTotals hist satSum lightSum endIdx startIdx 0 (Some 0) (Some 0) of
           (totalWeight0, totalSat, totalLight) \<Rightarrow>
             \<lparr>startHue = startIdx,
              endHue = endIdx,
              peakHue = index peak,
              peakValue = pvalue peak,
              totalWeight = totalWeight0,
              avgSaturation = average totalWeight0 totalSat,
              avgLightness = average totalWeight0 totalLight\<rparr>)"

definition convertToHuePeaks ::
  "LocalPeak list \<Rightarrow> real list \<Rightarrow> real list \<Rightarrow> real list \<Rightarrow> HuePeak list" where
  "convertToHuePeaks localPeaks hist satSum lightSum =
     map (toHuePeak hist satSum lightSum) localPeaks"

definition hueDiff :: "int \<Rightarrow> int \<Rightarrow> int" where
  "hueDiff h1 h2 = (let diff = \<bar>h1 - h2\<bar> in min diff (360 - diff))"

definition labOfPeak :: "int \<Rightarrow> real \<Rightarrow> real \<Rightarrow> real \<times> real \<times> real" where
  "labOfPeak h s l =
     (case hslToRgb (of_int h) s l of (r, g, b) \<Rightarrow> rgbToLab (of_int r) (of_int g) (of_int b))"

definition similarColors :: "real \<Rightarrow> HuePeak \<Rightarrow> HuePeak \<Rightarrow> bool" where
  "similarColors deltaEThreshold peak existing =
     (case (avgSaturation peak, avgLightness peak, avgSaturation existing, avgLightness existing) of
        (Some s, Some l, Some es, Some el) \<Rightarrow>
          deltaE2000 (labOfPeak (peakHue peak) s l) (labOfPeak (peakHue existing) es el)
            < deltaEThreshold
      | _ \<Rightarrow> False)"

fun findTarget :: "real \<Rightarrow> HuePeak \<Rightarrow> HuePeak list \<Rightarrow> nat option" where
  "findTarget deltaEThreshold peak [] = None"
| "findTarget deltaEThreshold peak (existing # rest) =
     (if hueDiff (peakHue peak) (peakHue existing) > 30
      then map_option Suc (findTarget deltaEThreshold peak rest)
      else if similarColors deltaEThreshold peak existing then Some 0
      else map_option Suc (findTarget deltaEThreshold peak rest))"

definition inRange :: "int \<Rightarrow> int \<Rightarrow> int \<Rightarrow> bool" where
  "inRange h s e = (if s \<le> e then h \<ge> s \<and> h \<le> e else h \<ge> s \<or> h \<le> e)"

definition mergeHueRanges :: "int \<Rightarrow> int \<Rightarrow> int \<Rightarrow> int \<Rightarrow> int \<times> int" where
  "mergeHueRanges s1 e1 s2 e2 =
     (let range1Contains2 = inRange s2 s1 e1 \<and> inRange e2 s1 e1;
          range2Contains1 = inRange s1 s2 e2 \<and> inRange e1 s2 e2
      in if range1Contains2 then (s1, e1)
         else if range2Contains1 then (s2, e2)
         else (let span1 = (if s1 \<le> e2 then e2 - s1 else 360 - s1 + e2);
                   span2 = (if s2 \<le> e1 then e1 - s2 else 360 - s2 + e1)
               in if span1 \<le> span2 then (s1, e2) else (s2, e1)))"

definition weightedAverage ::
  "real option \<Rightarrow> real \<Rightarrow> real option \<Rightarrow> real \<Rightarrow> real \<Rightarrow> real option" where
  "weightedAverage a w1 b w2 totalW =
     (case (a, b) of
        (Some x, Some y) \<Rightarrow> if totalW = 0 then None else Some ((x * w1 + y * w2) / totalW)
      | _ \<Rightarrow> None)"

definition fusePeak :: "HuePeak \<Rightarrow> HuePeak \<Rightarrow> HuePeak" where
  "fusePeak target peak =
     (let w1 = totalWeight target;
          w2 = totalWeight peak;
          totalW = w1 + w2
      in case mergeHueRanges (startHue target) (endHue target) (startHue peak) (endHue peak) of
           (newStart, newEnd) \<Rightarrow>
             \<lparr>startHue = newStart,
              endHue = newEnd,
              peakHue = (if peakValue peak > peakValue target then peakHue peak else peakHue target),
              peakValue = (if peakValue peak > peakValue target then peakValue peak
                           else peakValue target),
              totalWeight = totalW,
              avgSaturation = weightedAverage (avgSaturation target) w1 (avgSaturation peak) w2 totalW,
              avgLightness = weightedAverage (avgLightness target) w1 (avgLightness peak) w2 totalW\<rparr>)"

definition mergeStep :: "real \<Rightarrow> HuePeak \<Rightarrow> HuePeak list \<Rightarrow> HuePeak list" where
  "mergeStep deltaEThreshold peak merged =
     (case findTarget deltaEThreshold peak merged of
        Some k \<Rightarrow> merged[k := fusePeak (merged ! k) peak]
      | None \<Rightarrow> merged @ [peak])"

definition mergeSimilarColors :: "HuePeak list \<Rightarrow> real \<Rightarrow> HuePeak list" where
  "mergeSimilarColors peaks deltaEThreshold = fold (mergeStep deltaEThreshold) peaks []"

definition filterByWeight :: "HuePeak list \<Rightarrow> real \<Rightarrow> HuePeak list" where
  "filterByWeight peaks minRatio =
     (let totalSum = sum_list (map totalWeight peaks)
      in filter (\<lambda>p. totalWeight p \<ge> totalSum * minRatio) peaks)"

definition maxIndex :: "real list \<Rightarrow> nat" where
  "maxIndex hist = length (takeWhile (\<lambda>x. x \<noteq> Max (set hist)) hist)"

definition flatCluster :: "real list \<Rightarrow> real list \<Rightarrow> real list \<Rightarrow> HuePeak" where
  "flatCluster hist satSum lightSum =
     (let maxIdx = maxIndex hist;
          totalWeight0 = sum_list hist;
          totalSat = sum_list satSum;
          totalLight = sum_list lightSum
      in \<lparr>startHue = 0,
          endHue = 0,
          peakHue = int maxIdx,
          peakValue = hist ! maxIdx,
          totalWeight = totalWeight0,
          avgSaturation = average totalWeight0 (Some totalSat),
          avgLightness = average totalWeight0 (Some totalLight)\<rparr>)"

definition aggregatedPeaks :: "HistogramData \<Rightarrow> int \<Rightarrow> HuePeak list" where
  "aggregatedPeaks histogramData maxPeaks =
     (let hist = histogram histogramData;
          localPeaks1 = findValleys (findLocalPeaks hist) hist;
          localPeaks2 = mergeAdjacentPeaks localPeaks1 hist maxPeaks;
          peaks = convertToHuePeaks localPeaks2 hist
                    (saturationSum histogramData) (lightnessSum histogramData)
      in sort_key (\<lambda>p. - peakValue p) peaks)"

definition extractPeaks :: "HistogramData \<Rightarrow> int \<Rightarrow> HuePeak list" where
  "extractPeaks histogramData maxPeaks =
     (let hist = histogram histogramData
      in if length hist = 0 then []
         else if findLocalPeaks hist = []
         then [flatCluster hist (saturationSum histogramData) (lightnessSum histogramData)]
         else (let peaks1 = aggregatedPeaks histogramData maxPeaks;
                   peaks2 = mergeSimilarColors peaks1 10;
                   peaks3 = filterByWeight peaks2 0.01
               in sort_key (\<lambda>p. - totalWeight p) peaks3))"



section \<open>Runtime errors of the peak extraction\<close>

text \<open>
  The source of \<open>extractPeaks\<close> and of the functions it calls has no \<open>throw\<close>. The
  only way they can fail is a read \<open>peaks[k].field\<close> where \<open>k\<close> is not an index of
  \<open>peaks\<close>, a \<open>TypeError\<close>. \<open>findValleys\<close> reads \<open>peaks[0]\<close> in its
  single-peak branch, and \<open>peaks[i]\<close> with both circular neighbours in its loop; the
  inner loop of \<open>mergeAdjacentPeaks\<close> reads \<open>peaks[i]\<close> and
  \<open>peaks[(i + 1) % peaks.length]\<close>, and the merge reads \<open>peaks[bestIdx]\<close> and
  \<open>peaks[nextIdx]\<close>. The functions below are the same functions with these reads
  checked; reads of the number arrays give \<open>undefined\<close> outside the array and do not
  throw.
\<close>

definition definedAt :: "'a list \<Rightarrow> int \<Rightarrow> bool" where
  "definedAt xs i \<longleftrightarrow> 0 \<le> i \<and> i < int (length xs)"

definition findValleysE :: "LocalPeak list \<Rightarrow> real list \<Rightarrow> error + LocalPeak list" where
  "findValleysE peaks hist =
     (if length peaks = 1
      then (if definedAt peaks 0 then Inr (findValleys peaks hist) else Inl TypeError)
      else if list_all (\<lambda>i. definedAt peaks (int i) \<and>
                             definedAt peaks (circularIndex (int i - 1) (int (length peaks))) \<and>
                             definedAt peaks (circularIndex (int i + 1) (int (length peaks))))
                [0..<length peaks]
      then Inr (findValleys peaks hist)
      else Inl TypeError)"

definition scanReads :: "LocalPeak list \<Rightarrow> bool" where
  "scanReads peaks =
     list_all (\<lambda>i. definedAt peaks (int i) \<and> definedAt peaks (int ((i + 1) mod length peaks)))
       [0..<length peaks]"

definition mergeReads :: "LocalPeak list \<Rightarrow> int \<Rightarrow> bool" where
  "mergeReads peaks bestIdx \<longleftrightarrow>
     definedAt peaks bestIdx \<and> definedAt peaks ((bestIdx + 1) mod int (length peaks))"

function mergeAdjacentPeaksE :: "LocalPeak list \<Rightarrow> real list \<Rightarrow> int \<Rightarrow> error + LocalPeak list" where
  "mergeAdjacentPeaksE peaks hist maxPeaks =
     (if int (length peaks) > maxPeaks
      then (if \<not> scanReads peaks then Inl TypeError
            else if findBestPair hist peaks \<ge> 0
            then (if \<not> mergeReads peaks (findBestPair hist peaks) then Inl TypeError
                  else mergeAdjacentPeaksE (mergePair peaks (nat (findBestPair hist peaks))) hist maxPeaks)
            else Inr peaks)
      else Inr peaks)"
  by pat_completeness auto
termination
proof (relation "measure (\<lambda>(peaks, hist, maxPeaks). length peaks)")
  show "wf (measure (\<lambda>(peaks, hist, maxPeaks). length peaks))" by simp
next
  fix peaks :: "LocalPeak list" and hist :: "real list" and maxPeaks :: int
  assume "\<not> \<not> mergeReads peaks (findBestPair hist peaks)" and b: "0 \<le> findBestPair hist peaks"
  then have r: "definedAt peaks (findBestPair hist peaks)" by (simp add: mergeReads_def)
  define k where "k = nat (findBestPair hist peaks)"
  have kl: "k < length peaks" using r b by (simp add: definedAt_def k_def nat_less_iff)
  then have "0 < length peaks" by (cases peaks) simp_all
  then have "(k + 1) mod length peaks < length peaks" by (rule mod_less_divisor)
  with kl have "length (mergePair peaks k) < length peaks"
    by (simp add: mergePair_def Let_def splice1_def)
  then show "((mergePair peaks (nat (findBestPair hist peaks)), hist, maxPeaks), (peaks, hist, maxPeaks))
        \<in> measure (\<lambda>(peaks, hist, maxPeaks). length peaks)"
    by (simp add: k_def)
qed

declare mergeAdjacentPeaksE.simps [simp del]

definition extractPeaksE :: "HistogramData \<Rightarrow> int \<Rightarrow> error + HuePeak list" where
  "extractPeaksE histogramData maxPeaks =
     (let hist = histogram histogramData
      in if length hist = 0 then Inr []
         else if findLocalPeaks hist = []
         then Inr [flatCluster hist (saturationSum histogramData) (lightnessSum histogramData)]
         else (case findValleysE (findLocalPeaks hist) hist of
                 Inl e \<Rightarrow> Inl e
               | Inr localPeaks1 \<Rightarrow>
                  (case mergeAdjacentPeaksE localPeaks1 hist maxPeaks of
                     Inl e \<Rightarrow> Inl e
                   | Inr localPeaks2 \<Rightarrow>
                       (let peaks = convertToHuePeaks localPeaks2 hist
                                      (saturationSum histogramData) (lightnessSum histogramData);
                            peaks1 = sort_key (\<lambda>p. - peakValue p) peaks;
                            peaks2 = mergeSimilarColors peaks1 10;
                            peaks3 = filterByWeight peaks2 0.01
                        in Inr (sort_key (\<lambda>p. - totalWeight p) peaks3)))))"

section \<open>The data-model invariant, in the words of the specification\<close>

text \<open>
  The specification makes \<open>startHue\<close> and \<open>endHue\<close> of a cluster a circular arc, which
  wraps past the last bin when \<open>endHue < startHue\<close>, and asks \<open>totalWeight\<close> to be the
  sum of \<open>weight[i]\<close> for \<open>i\<close> traversing the arc from \<open>startHue\<close> to \<open>endHue\<close>
  inclusive. \<open>specArcBins\<close> lists the bins of that arc and \<open>specArcSum\<close> adds their
  weights; neither is taken from the code.
\<close>

definition specArcBins :: "nat \<Rightarrow> int \<Rightarrow> int \<Rightarrow> int list" where
  "specArcBins n s e = (if s \<le> e then [s..e] else [s..int n - 1] @ [0..e])"

definition specArcSum :: "real list \<Rightarrow> int \<Rightarrow> int \<Rightarrow> real" where
  "specArcSum hist s e = (\<Sum>i\<leftarrow>specArcBins (length hist) s e. hist ! nat i)"

text \<open>
  The invariant that the proofs about the adjacent-peak merge carry along: every local
  peak is higher than zero and its right valley is a bin of the histogram.
\<close>

definition peaksOk :: "real list \<Rightarrow> LocalPeak list \<Rightarrow> bool" where
  "peaksOk hist peaks =
     (\<forall>p \<in> set peaks. 0 < pvalue p \<and> 0 \<le> rightValley p \<and> rightValley p < int (length hist))"

text \<open>
  The invariant of the pixel loop of \<open>extractHueHistogram\<close>: the three arrays have
  \<open>bins\<close> entries and no entry is negative.
\<close>

definition histOk :: "int \<Rightarrow> HistogramData \<Rightarrow> bool" where
  "histOk bins h \<longleftrightarrow>
     length (histogram h) = nat bins \<and> length (saturationSum h) = nat bins \<and>
     length (lightnessSum h) = nat bins \<and>
     (\<forall>x \<in> set (histogram h). 0 \<le> x) \<and> (\<forall>x \<in> set (saturationSum h). 0 \<le> x) \<and>
     (\<forall>x \<in> set (lightnessSum h). 0 \<le> x)"

section \<open>Properties of the colour conversions\<close>

lemma js_round_nonneg: "0 \<le> x \<Longrightarrow> 0 \<le> js_round x"
  by (simp add: js_round_def)

lemma js_round_le: "x \<le> of_int n \<Longrightarrow> js_round x \<le> n"
  by (simp add: js_round_def floor_le_iff)

lemma js_round_zero: "js_round 0 = 0"
  by (simp add: js_round_def)

lemma frac_bounds:
  fixes x d :: real
  assumes "0 < d" "- d \<le> x" "x \<le> d"
  shows "- 1 \<le> x / d" "x / d \<le> 1"
  using assms by (simp_all add: field_simps)

lemma hue_bounds:
  fixes r g b :: real
  assumes mx: "mx = max (max r g) b" and mn: "mn = min (min r g) b"
    and ne: "mx \<noteq> mn" and dd: "d = mx - mn"
  shows "0 \<le> (if mx = r then ((g - b) / d + (if g < b then 6 else 0)) / 6
                     else if mx = g then ((b - r) / d + 2) / 6
                     else if mx = b then ((r - g) / d + 4) / 6
                     else 0) \<and>
         (if mx = r then ((g - b) / d + (if g < b then 6 else 0)) / 6
                     else if mx = g then ((b - r) / d + 2) / 6
                     else if mx = b then ((r - g) / d + 4) / 6
                     else 0) \<le> 1"
proof -
  have d: "0 < d" using ne by (auto simp: dd mx mn)
  have gb: "- d \<le> g - b" "g - b \<le> d" and br: "- d \<le> b - r" "b - r \<le> d"
    and rg: "- d \<le> r - g" "r - g \<le> d"
    by (auto simp: dd mx mn)
  note f1 = frac_bounds[OF d gb] and f2 = frac_bounds[OF d br] and f3 = frac_bounds[OF d rg]
  have "g < b \<Longrightarrow> (g - b) / d < 0" using d by (simp add: field_simps)
  moreover have "\<not> g < b \<Longrightarrow> 0 \<le> (g - b) / d" using d by (simp add: field_simps)
  ultimately show ?thesis using f1 f2 f3 by auto
qed

lemma sat_bounds:
  fixes mx mn :: real
  assumes "0 \<le> mn" "mn < mx" "mx \<le> 1"
  shows "0 \<le> (if (mx + mn) / 2 > 1 / 2 then (mx - mn) / (2 - mx - mn) else (mx - mn) / (mx + mn))"
    and "(if (mx + mn) / 2 > 1 / 2 then (mx - mn) / (2 - mx - mn) else (mx - mn) / (mx + mn)) \<le> 1"
  using assms by (auto simp: field_simps)

lemma rgbToHsl_bounds:
  assumes "0 \<le> r" "r \<le> 255" "0 \<le> g" "g \<le> 255" "0 \<le> b" "b \<le> 255"
  shows "case rgbToHsl r g b of (h, s, l) \<Rightarrow>
           0 \<le> h \<and> h \<le> 360 \<and> 0 \<le> s \<and> s \<le> 100 \<and> 0 \<le> l \<and> l \<le> 100 \<and>
           (max (max r g) b = min (min r g) b \<longrightarrow> h = 0 \<and> s = 0)"
proof -
  define r' g' b' where "r' = r / 255" and "g' = g / 255" and "b' = b / 255"
  define mx mn where "mx = max (max r' g') b'" and "mn = min (min r' g') b'"
  have rng: "0 \<le> mn" "mn \<le> mx" "mx \<le> 1"
    using assms by (auto simp: mx_def mn_def r'_def g'_def b'_def)
  have eq: "max (max r g) b = min (min r g) b \<longleftrightarrow> mx = mn"
    by (auto simp: mx_def mn_def r'_def g'_def b'_def max_def min_def)
  define d where "d = mx - mn"
  define s where "s = (if mx \<noteq> mn
               then (if (mx + mn) / 2 > 1 / 2 then d / (2 - mx - mn) else d / (mx + mn))
               else 0)"
  define h where "h = (if mx \<noteq> mn
               then (if mx = r' then ((g' - b') / d + (if g' < b' then 6 else 0)) / 6
                     else if mx = g' then ((b' - r') / d + 2) / 6
                     else if mx = b' then ((r' - g') / d + 4) / 6
                     else 0)
               else 0)"
  have res: "rgbToHsl r g b = (js_round (h * 360), js_round (s * 100), js_round ((mx + mn) / 2 * 100))"
    by (simp add: rgbToHsl_def Let_def h_def s_def d_def mx_def mn_def r'_def g'_def b'_def)
  have hb: "0 \<le> h \<and> h \<le> 1"
  proof (cases "mx = mn")
    case True
    then show ?thesis by (simp add: h_def)
  next
    case False
    from hue_bounds[OF mx_def mn_def False d_def] False show ?thesis
      unfolding h_def by simp
  qed
  have sb: "0 \<le> s \<and> s \<le> 1"
    using sat_bounds[of mn mx] rng by (auto simp: s_def d_def)
  have lb: "0 \<le> (mx + mn) / 2 \<and> (mx + mn) / 2 \<le> 1"
    using rng by auto
  have "0 \<le> js_round (h * 360)" "js_round (h * 360) \<le> 360"
    using hb by (auto intro!: js_round_nonneg js_round_le)
  moreover have "0 \<le> js_round (s * 100)" "js_round (s * 100) \<le> 100"
    using sb by (auto intro!: js_round_nonneg js_round_le)
  moreover have "0 \<le> js_round ((mx + mn) / 2 * 100)" "js_round ((mx + mn) / 2 * 100) \<le> 100"
    using lb by (auto intro!: js_round_nonneg js_round_le)
  moreover have "mx = mn \<Longrightarrow> js_round (h * 360) = 0 \<and> js_round (s * 100) = 0"
    by (simp add: h_def s_def js_round_zero)
  ultimately show ?thesis
    unfolding res eq by simp
qed

text \<open>
  Claim C7, as the code has it. For channels between 0 and 255, \<open>rgbToHsl\<close> returns
  integers (the results of \<open>Math.round\<close>) with hue between 0 and 360, both ends
  included, and saturation and lightness between 0 and 100; when the largest channel
  equals the smallest, hue and saturation are 0.
\<close>

theorem rgbToHsl_range:
  assumes "0 \<le> r" "r \<le> 255" "0 \<le> g" "g \<le> 255" "0 \<le> b" "b \<le> 255"
  shows "case rgbToHsl r g b of (h, s, l) \<Rightarrow>
           0 \<le> h \<and> h \<le> 360 \<and> 0 \<le> s \<and> s \<le> 100 \<and> 0 \<le> l \<and> l \<le> 100 \<and>
           (max (max r g) b = min (min r g) b \<longrightarrow> h = 0 \<and> s = 0)"
  using assms by (rule rgbToHsl_bounds)

theorem rgbToHsl_range_witness:
  "rgbToHsl 128 128 128 = (0, 0, 50) \<and>
   (case rgbToHsl 128 128 128 of (h, s, l) \<Rightarrow>
      0 \<le> h \<and> h \<le> 360 \<and> 0 \<le> s \<and> s \<le> 100 \<and> 0 \<le> l \<and> l \<le> 100 \<and> h = 0 \<and> s = 0)"
proof -
  have v: "rgbToHsl 128 128 128 = (0, 0, 50)"
    by (simp add: rgbToHsl_def js_round_def Let_def)
  from rgbToHsl_range[of 128 128 128] v show ?thesis by simp
qed

text \<open>
  Claim C7 as stated excludes hue 360. A red with a trace of blue has an exact hue of
  about 359.76 degrees, which \<open>Math.round\<close> takes to 360.
\<close>

theorem rgbToHsl_hue_360:
  "rgbToHsl 255 0 1 = (360, 100, 50) \<and> \<not> fst (rgbToHsl 255 0 1) < 360"
  by (simp add: rgbToHsl_def js_round_def Let_def)

lemma gray_roundTrip:
  fixes v :: int
  shows "roundTrip (of_int v) (of_int v) (of_int v) =
     (js_round (of_int (js_round (of_int v / 255 * 100)) / 100 * 255),
      js_round (of_int (js_round (of_int v / 255 * 100)) / 100 * 255),
      js_round (of_int (js_round (of_int v / 255 * 100)) / 100 * 255))"
  by (simp add: roundTrip_def rgbToHsl_def hslToRgb_def Let_def js_round_zero)

lemma gray_channel:
  fixes v :: int
  shows "\<bar>js_round (of_int (js_round (of_int v / 255 * 100)) / 100 * 255) - v\<bar> \<le> 1"
proof -
  define L where "L = js_round (of_int v / 255 * 100)"
  have "of_int L \<le> of_int v / 255 * 100 + 1 / (2::real)"
    "of_int v / 255 * 100 + 1 / (2::real) < of_int L + 1"
    unfolding L_def js_round_def by linarith+
  then have b: "real_of_int L / 100 * 255 \<le> of_int v + 1.275"
    "of_int v - 1.275 < real_of_int L / 100 * 255"
    by (simp_all add: field_simps)
  have "js_round (of_int L / 100 * 255) \<le> v + 1"
    unfolding js_round_def floor_le_iff using b by simp
  moreover have "v - 1 \<le> js_round (of_int L / 100 * 255)"
    unfolding js_round_def le_floor_iff using b by simp
  ultimately show ?thesis unfolding L_def by linarith
qed

lemma roundTrip_achromatic:
  fixes v :: int
  shows "case roundTrip (of_int v) (of_int v) (of_int v) of (r, g, b) \<Rightarrow>
           \<bar>r - v\<bar> \<le> 1 \<and> \<bar>g - v\<bar> \<le> 1 \<and> \<bar>b - v\<bar> \<le> 1"
  unfolding gray_roundTrip using gray_channel[of v] by simp

subsection \<open>The round trip through HSL\<close>

lemma hue2rgb_affine: "hue2rgb p q t = p + (q - p) * hue2rgb 0 1 t"
  by (simp add: hue2rgb_def Let_def field_simps)

lemma ramp_range:
  assumes "- 1 \<le> t" "t \<le> 2"
  shows "0 \<le> hue2rgb 0 1 t \<and> hue2rgb 0 1 t \<le> 1"
  using assms by (auto simp: hue2rgb_def Let_def)

lemma ramp_pieces:
  assumes "- 1 / 3 \<le> t" "t \<le> 4 / 3"
  shows "hue2rgb 0 1 t =
           (if t \<le> 0 then 0 else if t \<le> 1 / 6 then 6 * t else if t \<le> 1 / 2 then 1
            else if t \<le> 2 / 3 then 4 - 6 * t else if t \<le> 1 then 0
            else if t \<le> 7 / 6 then 6 * t - 6 else 1)"
  using assms by (auto simp: hue2rgb_def Let_def)

lemma ramp_lipschitz:
  assumes "- 1 / 3 \<le> t" "t \<le> 4 / 3" "- 1 / 3 \<le> u" "u \<le> 4 / 3"
  shows "\<bar>hue2rgb 0 1 t - hue2rgb 0 1 u\<bar> \<le> 6 * \<bar>t - u\<bar>"
  unfolding ramp_pieces[OF assms(1,2)] ramp_pieces[OF assms(3,4)]
  by (simp split: if_splits) (auto simp: abs_if)

lemma js_round_close: "\<bar>real_of_int (js_round x) - x\<bar> \<le> 1 / 2"
  unfolding js_round_def by linarith

lemma js_round_near:
  fixes n :: int
  assumes "\<bar>x - real_of_int n\<bar> \<le> 5 + 5 / 16"
  shows "\<bar>js_round x - n\<bar> \<le> 5"
proof -
  have a: "x \<le> real_of_int n + 85 / 16" "real_of_int n - 85 / 16 \<le> x"
    using assms by linarith+
  have "js_round x \<le> n + 5"
    unfolding js_round_def floor_le_iff using a by simp
  moreover have "n - 5 \<le> js_round x"
    unfolding js_round_def le_floor_iff using a by simp
  ultimately show ?thesis by linarith
qed

lemma chroma_close:
  fixes l l' s s' :: real
  assumes "\<bar>l' - l\<bar> \<le> 1 / 200" "\<bar>s' - s\<bar> \<le> 1 / 200" "0 \<le> s" "s \<le> 1" "0 \<le> l'" "l' \<le> 1"
  shows "\<bar>s' * (1 - \<bar>2 * l' - 1\<bar>) - s * (1 - \<bar>2 * l - 1\<bar>)\<bar> \<le> 3 / 200"
proof -
  have e: "s' * (1 - \<bar>2 * l' - 1\<bar>) - s * (1 - \<bar>2 * l - 1\<bar>)
             = (s' - s) * (1 - \<bar>2 * l' - 1\<bar>) + s * (\<bar>2 * l - 1\<bar> - \<bar>2 * l' - 1\<bar>)"
    by (simp add: algebra_simps)
  have w: "0 \<le> 1 - \<bar>2 * l' - 1\<bar>" "1 - \<bar>2 * l' - 1\<bar> \<le> 1" using assms(5,6) by simp_all
  have "\<bar>(s' - s) * (1 - \<bar>2 * l' - 1\<bar>)\<bar> = \<bar>s' - s\<bar> * (1 - \<bar>2 * l' - 1\<bar>)"
    using w by (simp add: abs_mult)
  also have "\<dots> \<le> (1 / 200) * 1"
    using assms(2) w by (intro mult_mono) simp_all
  finally have 1: "\<bar>(s' - s) * (1 - \<bar>2 * l' - 1\<bar>)\<bar> \<le> 1 / 200" by simp
  have "\<bar>\<bar>2 * l - 1\<bar> - \<bar>2 * l' - 1\<bar>\<bar> \<le> \<bar>(2 * l - 1) - (2 * l' - 1)\<bar>"
    by (rule abs_triangle_ineq3)
  also have "\<dots> = 2 * \<bar>l' - l\<bar>" by (auto simp: abs_if)
  finally have d: "\<bar>\<bar>2 * l - 1\<bar> - \<bar>2 * l' - 1\<bar>\<bar> \<le> 1 / 100" using assms(1) by simp
  have "\<bar>s * (\<bar>2 * l - 1\<bar> - \<bar>2 * l' - 1\<bar>)\<bar> = s * \<bar>\<bar>2 * l - 1\<bar> - \<bar>2 * l' - 1\<bar>\<bar>"
    using assms(3) by (simp add: abs_mult)
  also have "\<dots> \<le> 1 * (1 / 100)"
    using assms(3,4) d by (intro mult_mono) simp_all
  finally have 2: "\<bar>s * (\<bar>2 * l - 1\<bar> - \<bar>2 * l' - 1\<bar>)\<bar> \<le> 1 / 100" by simp
  show ?thesis unfolding e using 1 2 by linarith
qed

lemma channel_close:
  fixes l l' d d' F F' :: real
  assumes "\<bar>l' - l\<bar> \<le> 1 / 200" "\<bar>d' - d\<bar> \<le> 3 / 200" "\<bar>F' - F\<bar> \<le> 1 / 120"
    and "0 \<le> F'" "F' \<le> 1" "0 \<le> d" "d \<le> 1"
  shows "\<bar>(l' + d' * (F' - 1 / 2)) - (l + d * (F - 1 / 2))\<bar> \<le> 1 / 48"
proof -
  have e: "(l' + d' * (F' - 1 / 2)) - (l + d * (F - 1 / 2))
             = (l' - l) + (d' - d) * (F' - 1 / 2) + d * (F' - F)"
    by (simp add: field_simps)
  have "\<bar>F' - 1 / 2\<bar> \<le> 1 / 2" using assms(4,5) by linarith
  then have "\<bar>d' - d\<bar> * \<bar>F' - 1 / 2\<bar> \<le> (3 / 200) * (1 / 2)"
    using assms(2) by (intro mult_mono) simp_all
  then have 1: "\<bar>(d' - d) * (F' - 1 / 2)\<bar> \<le> 3 / 400" by (simp add: abs_mult)
  have "d * \<bar>F' - F\<bar> \<le> 1 * (1 / 120)"
    using assms(3,6,7) by (intro mult_mono) simp_all
  then have 2: "\<bar>d * (F' - F)\<bar> \<le> 1 / 120" using assms(6) by (simp add: abs_mult)
  show ?thesis unfolding e using assms(1) 1 2 by linarith
qed

lemma hslToRgb_channels:
  "hslToRgb h0 s0 l0 =
     (js_round ((l0 / 100 + s0 / 100 * (1 - \<bar>2 * (l0 / 100) - 1\<bar>) * (hue2rgb 0 1 (h0 / 360 + 1 / 3) - 1 / 2)) * 255),
      js_round ((l0 / 100 + s0 / 100 * (1 - \<bar>2 * (l0 / 100) - 1\<bar>) * (hue2rgb 0 1 (h0 / 360) - 1 / 2)) * 255),
      js_round ((l0 / 100 + s0 / 100 * (1 - \<bar>2 * (l0 / 100) - 1\<bar>) * (hue2rgb 0 1 (h0 / 360 - 1 / 3) - 1 / 2)) * 255))"
proof -
  define l s where "l = l0 / 100" and "s = s0 / 100"
  define q where "q = (if l < 1 / 2 then l * (1 + s) else l + s - l * s)"
  have c: "hue2rgb (2 * l - q) q t = l + s * (1 - \<bar>2 * l - 1\<bar>) * (hue2rgb 0 1 t - 1 / 2)" for t
  proof -
    define F where "F = hue2rgb 0 1 t"
    have "hue2rgb (2 * l - q) q t = (2 * l - q) + (q - (2 * l - q)) * F"
      unfolding F_def by (rule hue2rgb_affine)
    also have "\<dots> = l + s * (1 - \<bar>2 * l - 1\<bar>) * (F - 1 / 2)"
      unfolding q_def by (simp add: abs_if field_simps)
    finally show ?thesis unfolding F_def .
  qed
  show ?thesis
  proof (cases "s = 0")
    case True
    then have "s0 = 0" by (simp add: s_def)
    then show ?thesis by (simp add: hslToRgb_def Let_def)
  next
    case False
    then have "s0 \<noteq> 0" by (simp add: s_def)
    then have "hslToRgb h0 s0 l0 =
        (js_round (hue2rgb (2 * l - q) q (h0 / 360 + 1 / 3) * 255),
         js_round (hue2rgb (2 * l - q) q (h0 / 360) * 255),
         js_round (hue2rgb (2 * l - q) q (h0 / 360 - 1 / 3) * 255))"
      by (simp add: hslToRgb_def Let_def q_def l_def s_def)
    then show ?thesis unfolding c by (simp add: l_def s_def)
  qed
qed

lemma chroma_exact:
  fixes mx mn :: real
  assumes "0 \<le> mn" "mn < mx" "mx \<le> 1"
  shows "(if (mx + mn) / 2 > 1 / 2 then (mx - mn) / (2 - mx - mn) else (mx - mn) / (mx + mn))
           * (1 - \<bar>2 * ((mx + mn) / 2) - 1\<bar>) = mx - mn"
proof (cases "(mx + mn) / 2 > 1 / 2")
  case True
  have e: "2 * ((mx + mn) / 2) - 1 = mx + mn - 1" by simp
  have "0 < mx + mn - 1" using True by simp
  then have a: "1 - \<bar>2 * ((mx + mn) / 2) - 1\<bar> = 2 - mx - mn" unfolding e by linarith
  have nz: "2 - mx - mn \<noteq> 0" using assms by simp
  show ?thesis using True nz unfolding a by simp
next
  case False
  have e: "2 * ((mx + mn) / 2) - 1 = mx + mn - 1" by simp
  have "mx + mn - 1 \<le> 0" using False by simp
  then have a: "1 - \<bar>2 * ((mx + mn) / 2) - 1\<bar> = mx + mn" unfolding e by linarith
  have nz: "mx + mn \<noteq> 0" using assms by simp
  show ?thesis using False nz unfolding a by simp
qed

lemma hue_inverse:
  fixes r g b :: real
  assumes mx: "mx = max (max r g) b" and mn: "mn = min (min r g) b"
    and ne: "mx \<noteq> mn" and dd: "d = mx - mn"
    and hh: "h = (if mx = r then ((g - b) / d + (if g < b then 6 else 0)) / 6
                     else if mx = g then ((b - r) / d + 2) / 6
                     else if mx = b then ((r - g) / d + 4) / 6
                     else 0)"
  shows "mn + d * hue2rgb 0 1 (h + 1 / 3) = r"
    and "mn + d * hue2rgb 0 1 h = g"
    and "mn + d * hue2rgb 0 1 (h - 1 / 3) = b"
proof -
  have d: "0 < d" using ne by (auto simp: dd mx mn)
  have hb: "0 \<le> h" "h \<le> 1"
    using hue_bounds[OF mx mn ne dd] unfolding hh by simp_all
  have p1: "- 1 / 3 \<le> h + 1 / 3" "h + 1 / 3 \<le> 4 / 3"
    and p2: "- 1 / 3 \<le> h" "h \<le> 4 / 3"
    and p3: "- 1 / 3 \<le> h - 1 / 3" "h - 1 / 3 \<le> 4 / 3"
    using hb by simp_all
  note F1 = ramp_pieces[OF p1] and F2 = ramp_pieces[OF p2] and F3 = ramp_pieces[OF p3]
  have mx3: "mx = r \<or> mx = g \<or> mx = b" using mx by (auto simp: max_def)
  consider (R0) "mx = r" "\<not> g < b" | (R1) "mx = r" "g < b"
    | (G0) "mx \<noteq> r" "mx = g" "\<not> b < r" | (G1) "mx \<noteq> r" "mx = g" "b < r"
    | (B0) "mx \<noteq> r" "mx \<noteq> g" "mx = b" "\<not> r < g" | (B1) "mx \<noteq> r" "mx \<noteq> g" "mx = b" "r < g"
    using mx3 by blast
  then have "mn + d * hue2rgb 0 1 (h + 1 / 3) = r \<and> mn + d * hue2rgb 0 1 h = g \<and>
             mn + d * hue2rgb 0 1 (h - 1 / 3) = b"
  proof cases
    case R0
    then have m: "mn = b" "d = r - b" "b \<le> g" "g \<le> r" "b < r"
      using mx mn dd ne by (auto simp: max_def min_def split: if_splits)
    have h: "h = (g - b) / (r - b) / 6" using R0 m by (simp add: hh)
    have x: "0 \<le> (g - b) / (r - b)" "(g - b) / (r - b) \<le> 1" using m by (simp_all add: field_simps)
    show ?thesis unfolding F1 F2 F3 unfolding h using x m by (auto simp: field_simps)
  next
    case R1
    then have m: "mn = g" "d = r - g" "g < b" "b \<le> r" "g < r"
      using mx mn dd ne by (auto simp: max_def min_def split: if_splits)
    have h: "h = ((g - b) / (r - g) + 6) / 6" using R1 m by (simp add: hh)
    have x: "- 1 \<le> (g - b) / (r - g)" "(g - b) / (r - g) < 0" using m by (simp_all add: field_simps)
    show ?thesis unfolding F1 F2 F3 unfolding h using x m by (auto simp: field_simps)
  next
    case G0
    then have m: "mn = r" "d = g - r" "r \<le> b" "b \<le> g" "r < g"
      using mx mn dd ne by (auto simp: max_def min_def split: if_splits)
    have h: "h = ((b - r) / (g - r) + 2) / 6" using G0 m by (simp add: hh)
    have x: "0 \<le> (b - r) / (g - r)" "(b - r) / (g - r) \<le> 1" using m by (simp_all add: field_simps)
    show ?thesis unfolding F1 F2 F3 unfolding h using x m by (auto simp: field_simps)
  next
    case G1
    then have m: "mn = b" "d = g - b" "b < r" "r < g" "b < g"
      using mx mn dd ne by (auto simp: max_def min_def split: if_splits)
    have h: "h = ((b - r) / (g - b) + 2) / 6" using G1 m by (simp add: hh)
    have x: "- 1 \<le> (b - r) / (g - b)" "(b - r) / (g - b) < 0" using m by (simp_all add: field_simps)
    show ?thesis unfolding F1 F2 F3 unfolding h using x m by (auto simp: field_simps)
  next
    case B0
    then have m: "mn = g" "d = b - g" "g \<le> r" "r < b" "g < b"
      using mx mn dd ne by (auto simp: max_def min_def split: if_splits)
    have h: "h = ((r - g) / (b - g) + 4) / 6" using B0 m by (simp add: hh)
    have x: "0 \<le> (r - g) / (b - g)" "(r - g) / (b - g) \<le> 1" using m by (simp_all add: field_simps)
    show ?thesis unfolding F1 F2 F3 unfolding h using x m by (auto simp: field_simps)
  next
    case B1
    then have m: "mn = r" "d = b - r" "r < g" "g < b" "r < b"
      using mx mn dd ne by (auto simp: max_def min_def split: if_splits)
    have h: "h = ((r - g) / (b - r) + 4) / 6" using B1 m by (simp add: hh)
    have x: "- 1 \<le> (r - g) / (b - r)" "(r - g) / (b - r) < 0" using m by (simp_all add: field_simps)
    show ?thesis unfolding F1 F2 F3 unfolding h using x m by (auto simp: field_simps)
  qed
  then show "mn + d * hue2rgb 0 1 (h + 1 / 3) = r"
    and "mn + d * hue2rgb 0 1 h = g"
    and "mn + d * hue2rgb 0 1 (h - 1 / 3) = b" by simp_all
qed

lemma channel_bound:
  fixes N :: int and l l' d d' t t' :: real
  assumes t: "- 1 / 3 \<le> t" "t \<le> 4 / 3" and t': "- 1 / 3 \<le> t'" "t' \<le> 4 / 3"
    and tc: "\<bar>t' - t\<bar> \<le> 1 / 720"
    and lc: "\<bar>l' - l\<bar> \<le> 1 / 200" and dc: "\<bar>d' - d\<bar> \<le> 3 / 200"
    and db: "0 \<le> d" "d \<le> 1"
    and exact: "l + d * (hue2rgb 0 1 t - 1 / 2) = of_int N / 255"
  shows "\<bar>js_round ((l' + d' * (hue2rgb 0 1 t' - 1 / 2)) * 255) - N\<bar> \<le> 5"
proof -
  define F F' where "F = hue2rgb 0 1 t" and "F' = hue2rgb 0 1 t'"
  have "\<bar>F' - F\<bar> \<le> 6 * \<bar>t' - t\<bar>"
    unfolding F_def F'_def by (rule ramp_lipschitz[OF t' t])
  then have Fc: "\<bar>F' - F\<bar> \<le> 1 / 120" using tc by simp
  have F'b: "0 \<le> F'" "F' \<le> 1"
    using ramp_range[of t'] t' unfolding F'_def by simp_all
  define v v' where "v = l + d * (F - 1 / 2)" and "v' = l' + d' * (F' - 1 / 2)"
  have "\<bar>v' - v\<bar> \<le> 1 / 48"
    unfolding v_def v'_def by (rule channel_close[OF lc dc Fc F'b db])
  moreover have "v = of_int N / 255" using exact by (simp add: v_def F_def)
  ultimately have "\<bar>v' - of_int N / 255\<bar> \<le> 1 / 48" by simp
  then have "\<bar>v' * 255 - of_int N\<bar> \<le> 5 + 5 / 16" by linarith
  then have "\<bar>js_round (v' * 255) - N\<bar> \<le> 5" by (rule js_round_near)
  then show ?thesis by (simp add: v'_def F'_def)
qed

lemma rounded_close:
  fixes x :: real
  shows "\<bar>of_int (js_round (x * 360)) / 360 - x\<bar> \<le> 1 / 720"
    and "\<bar>of_int (js_round (x * 100)) / 100 - x\<bar> \<le> 1 / 200"
  using js_round_close[of "x * 360"] js_round_close[of "x * 100"] by linarith+

lemma rounded_unit:
  fixes x :: real
  assumes "0 \<le> x" "x \<le> 1"
  shows "0 \<le> real_of_int (js_round (x * 360)) / 360" "real_of_int (js_round (x * 360)) / 360 \<le> 1"
    and "0 \<le> real_of_int (js_round (x * 100)) / 100" "real_of_int (js_round (x * 100)) / 100 \<le> 1"
proof -
  have a: "0 \<le> js_round (x * 360)" "0 \<le> js_round (x * 100)"
    using assms(1) by (simp_all add: js_round_nonneg)
  have c: "x * 360 \<le> real_of_int 360" "x * 100 \<le> real_of_int 100" using assms(2) by simp_all
  have b: "js_round (x * 360) \<le> 360" "js_round (x * 100) \<le> 100"
    by (rule js_round_le[OF c(1)], rule js_round_le[OF c(2)])
  from a show "0 \<le> real_of_int (js_round (x * 360)) / 360"
    "0 \<le> real_of_int (js_round (x * 100)) / 100" by simp_all
  from b have "real_of_int (js_round (x * 360)) \<le> 360" "real_of_int (js_round (x * 100)) \<le> 100"
    by linarith+
  then show "real_of_int (js_round (x * 360)) / 360 \<le> 1"
    "real_of_int (js_round (x * 100)) / 100 \<le> 1" by simp_all
qed

lemma roundTrip_bound:
  fixes R G B :: int
  assumes "0 \<le> R" "R \<le> 255" "0 \<le> G" "G \<le> 255" "0 \<le> B" "B \<le> 255"
  shows "case roundTrip (of_int R) (of_int G) (of_int B) of (r, g, b) \<Rightarrow>
           \<bar>r - R\<bar> \<le> 5 \<and> \<bar>g - G\<bar> \<le> 5 \<and> \<bar>b - B\<bar> \<le> 5"
proof -
  define r g b :: real where "r = of_int R / 255" and "g = of_int G / 255" and "b = of_int B / 255"
  define mx mn where "mx = max (max r g) b" and "mn = min (min r g) b"
  define d l where "d = mx - mn" and "l = (mx + mn) / 2"
  define s where "s = (if mx \<noteq> mn
               then (if l > 1 / 2 then d / (2 - mx - mn) else d / (mx + mn))
               else 0)"
  define h where "h = (if mx \<noteq> mn
               then (if mx = r then ((g - b) / d + (if g < b then 6 else 0)) / 6
                     else if mx = g then ((b - r) / d + 2) / 6
                     else if mx = b then ((r - g) / d + 4) / 6
                     else 0)
               else 0)"
  have res: "rgbToHsl (of_int R) (of_int G) (of_int B) =
               (js_round (h * 360), js_round (s * 100), js_round (l * 100))"
    by (simp add: rgbToHsl_def Let_def h_def s_def d_def l_def mx_def mn_def r_def g_def b_def)
  have rng: "0 \<le> mn" "mn \<le> mx" "mx \<le> 1"
    using assms by (auto simp: mx_def mn_def r_def g_def b_def)
  have hb: "0 \<le> h" "h \<le> 1"
  proof -
    have "0 \<le> h \<and> h \<le> 1"
    proof (cases "mx = mn")
      case True
      then show ?thesis by (simp add: h_def)
    next
      case False
      from hue_bounds[OF mx_def mn_def False d_def] False show ?thesis
        unfolding h_def by simp
    qed
    then show "0 \<le> h" "h \<le> 1" by simp_all
  qed
  have sb: "0 \<le> s" "s \<le> 1"
    using sat_bounds[of mn mx] rng by (auto simp: s_def d_def l_def)
  have lb: "0 \<le> l" "l \<le> 1" using rng by (auto simp: l_def)
  have db: "0 \<le> d" "d \<le> 1" using rng by (auto simp: d_def)
  have dex: "s * (1 - \<bar>2 * l - 1\<bar>) = d"
  proof (cases "mx = mn")
    case True
    then show ?thesis by (simp add: s_def d_def)
  next
    case False
    then have lt: "mn < mx" using rng by simp
    have s1: "s = (if l > 1 / 2 then d / (2 - mx - mn) else d / (mx + mn))"
      unfolding s_def using False by (rule if_P)
    show ?thesis unfolding s1 l_def d_def by (rule chroma_exact[OF rng(1) lt rng(3)])
  qed
  have ex: "l + d * (hue2rgb 0 1 (h + 1 / 3) - 1 / 2) = of_int R / 255"
    "l + d * (hue2rgb 0 1 h - 1 / 2) = of_int G / 255"
    "l + d * (hue2rgb 0 1 (h - 1 / 3) - 1 / 2) = of_int B / 255"
  proof -
    have "l + d * (hue2rgb 0 1 (h + 1 / 3) - 1 / 2) = r \<and>
          l + d * (hue2rgb 0 1 h - 1 / 2) = g \<and>
          l + d * (hue2rgb 0 1 (h - 1 / 3) - 1 / 2) = b"
    proof (cases "mx = mn")
      case True
      then have "d = 0" "l = mx" by (simp_all add: d_def l_def)
      moreover have "r = mx" "g = mx" "b = mx"
        using True by (auto simp: mx_def mn_def max_def min_def split: if_splits)
      ultimately show ?thesis by simp
    next
      case False
      have hh: "h = (if mx = r then ((g - b) / d + (if g < b then 6 else 0)) / 6
                     else if mx = g then ((b - r) / d + 2) / 6
                     else if mx = b then ((r - g) / d + 4) / 6
                     else 0)"
        using False by (simp add: h_def)
      note inv = hue_inverse[OF mx_def mn_def False d_def hh]
      have m: "l - d / 2 = mn" by (simp add: l_def d_def field_simps)
      have "l + d * (F - 1 / 2) = mn + d * F" for F
        using m by (simp add: algebra_simps)
      then show ?thesis using inv by simp
    qed
    then show "l + d * (hue2rgb 0 1 (h + 1 / 3) - 1 / 2) = of_int R / 255"
      "l + d * (hue2rgb 0 1 h - 1 / 2) = of_int G / 255"
      "l + d * (hue2rgb 0 1 (h - 1 / 3) - 1 / 2) = of_int B / 255"
      by (simp_all add: r_def g_def b_def)
  qed
  define h' s' l' where "h' = real_of_int (js_round (h * 360)) / 360"
    and "s' = real_of_int (js_round (s * 100)) / 100"
    and "l' = real_of_int (js_round (l * 100)) / 100"
  define d' where "d' = s' * (1 - \<bar>2 * l' - 1\<bar>)"
  have hc: "\<bar>h' - h\<bar> \<le> 1 / 720"
    unfolding h'_def by (rule rounded_close)
  have sc: "\<bar>s' - s\<bar> \<le> 1 / 200"
    unfolding s'_def by (rule rounded_close)
  have lc: "\<bar>l' - l\<bar> \<le> 1 / 200"
    unfolding l'_def by (rule rounded_close)
  have h'b: "0 \<le> h'" "h' \<le> 1"
    unfolding h'_def by (rule rounded_unit[OF hb])+
  have l'b: "0 \<le> l'" "l' \<le> 1"
    unfolding l'_def by (rule rounded_unit[OF lb])+
  have dc: "\<bar>d' - d\<bar> \<le> 3 / 200"
    using chroma_close[OF lc sc sb l'b] unfolding d'_def dex .
  have rt: "roundTrip (of_int R) (of_int G) (of_int B) =
     (js_round ((l' + d' * (hue2rgb 0 1 (h' + 1 / 3) - 1 / 2)) * 255),
      js_round ((l' + d' * (hue2rgb 0 1 h' - 1 / 2)) * 255),
      js_round ((l' + d' * (hue2rgb 0 1 (h' - 1 / 3) - 1 / 2)) * 255))"
    unfolding roundTrip_def res prod.case hslToRgb_channels h'_def s'_def l'_def d'_def ..
  have c1: "\<bar>js_round ((l' + d' * (hue2rgb 0 1 (h' + 1 / 3) - 1 / 2)) * 255) - R\<bar> \<le> 5"
    using hb h'b hc by (intro channel_bound[OF _ _ _ _ _ lc dc db ex(1)]) simp_all
  have c2: "\<bar>js_round ((l' + d' * (hue2rgb 0 1 h' - 1 / 2)) * 255) - G\<bar> \<le> 5"
    using hb h'b hc by (intro channel_bound[OF _ _ _ _ _ lc dc db ex(2)]) simp_all
  have c3: "\<bar>js_round ((l' + d' * (hue2rgb 0 1 (h' - 1 / 3) - 1 / 2)) * 255) - B\<bar> \<le> 5"
    using hb h'b hc by (intro channel_bound[OF _ _ _ _ _ lc dc db ex(3)]) simp_all
  show ?thesis unfolding rt using c1 c2 c3 by simp
qed

lemma roundTrip_example: "roundTrip 2 228 230 = (2, 223, 227)"
  by (simp add: roundTrip_def hslToRgb_def hue2rgb_def rgbToHsl_def js_round_def Let_def)

text \<open>
  Claim C8, with the tolerance that the code has. \<open>rgbToHsl\<close> rounds hue, saturation
  and lightness to integers, which moves the hue by at most half a degree and saturation
  and lightness by at most half a percent. \<open>hslToRgb\<close> inverts the unrounded
  conversion exactly (\<open>hue_inverse\<close>), each channel is a 6-Lipschitz function of the
  hue, and the chroma moves by at most 3/200, so a channel moves by at most
  \<open>255 / 48 = 5.3125\<close> before the last \<open>Math.round\<close>: for every triple of
  integers between 0 and 255, converting to HSL and back gives every channel within 5 of
  the original. The distance of \<open>5.3125\<close> to the next rounding boundary \<open>5.5\<close> is
  far more than the rounding error of double arithmetic. The bound 5 is reached:
  \<open>(2, 228, 230)\<close> comes back as \<open>(2, 223, 227)\<close>.
\<close>

theorem roundTrip_within_five:
  fixes R G B :: int
  assumes "0 \<le> R" "R \<le> 255" "0 \<le> G" "G \<le> 255" "0 \<le> B" "B \<le> 255"
  shows "case roundTrip (of_int R) (of_int G) (of_int B) of (r, g, b) \<Rightarrow>
           \<bar>r - R\<bar> \<le> 5 \<and> \<bar>g - G\<bar> \<le> 5 \<and> \<bar>b - B\<bar> \<le> 5"
  using assms by (rule roundTrip_bound)

theorem roundTrip_within_five_witness:
  "roundTrip 2 228 230 = (2, 223, 227) \<and>
   (case roundTrip (of_int 2) (of_int 228) (of_int 230) of (r, g, b) \<Rightarrow>
      \<bar>r - 2\<bar> \<le> 5 \<and> \<bar>g - 228\<bar> \<le> 5 \<and> \<bar>b - 230\<bar> \<le> 5)"
  using roundTrip_within_five[of 2 228 230] roundTrip_example by simp

text \<open>
  Claim C8 as stated, with a tolerance of 1, fails because hue, saturation and lightness
  are rounded to integers in between. The triple \<open>(255, 254, 253)\<close> has HSL
  \<open>(30, 100, 100)\<close>, which converts back to white: the blue channel is off by 2.
\<close>

theorem roundTrip_off_by_two:
  "rgbToHsl 255 254 253 = (30, 100, 100) \<and> roundTrip 255 254 253 = (255, 255, 255) \<and>
   \<not> \<bar>snd (snd (roundTrip 255 254 253)) - 253\<bar> \<le> 1"
  by (simp add: roundTrip_def hslToRgb_def hue2rgb_def rgbToHsl_def js_round_def Let_def)

section \<open>Properties of the Gaussian smoother\<close>

lemma upto_small: "[- 1..1] = [- 1, 0, 1::int]" "[0..1] = [0, 1::int]"
  by (simp_all add: upto.simps)

lemma kernel_3_2:
  "generateGaussianKernel 3 2 =
     [exp (- 1 / 18) / (1 + 2 * exp (- 1 / 18)),
      1 / (1 + 2 * exp (- 1 / 18)),
      exp (- 1 / 18) / (1 + 2 * exp (- 1 / 18))]"
  by (simp add: generateGaussianKernel_def Let_def upto_small)

lemma smooth_1_1:
  "gaussianSmooth [1, 1] 3 =
     [(exp (- 1 / 18) + 1) / (1 + 2 * exp (- 1 / 18)),
      (exp (- 1 / 18) + 1) / (1 + 2 * exp (- 1 / 18))]"
  by (simp add: gaussianSmooth_def Let_def toInt32_def kernel_3_2 js_rem_def upto_small
      add_divide_distrib)

lemma exp_ge_half: "1 / 2 \<le> exp (- 1 / 18 :: real)"
  using exp_ge_add_one_self[of "- 1 / 18 :: real"] by simp

lemma mass_bound:
  fixes e :: real
  assumes "1 / 2 \<le> e"
  shows "2 * ((e + 1) / (1 + 2 * e)) \<le> 3 / 2"
proof -
  have "0 < 1 + 2 * e" using assms by simp
  then show ?thesis using assms by (simp add: field_simps)
qed

text \<open>
  Claim C3 at the input \<open>[1, 1]\<close> with \<open>sigma = 3\<close>. The kernel size is
  \<open>min(19, 2) = 2\<close>, an even number; \<open>generateGaussianKernel\<close> then builds and
  normalises three entries, of which the convolution uses two. The smoothed array sums to
  at most 1.5, the input to 2.
\<close>

theorem gaussianSmooth_loses_mass:
  "length (generateGaussianKernel 3 2) = 3 \<and>
   sum_list (gaussianSmooth [1, 1] 3) \<le> 3 / 2 \<and> sum_list [1, 1 :: real] = 2"
proof -
  have "sum_list (gaussianSmooth [1, 1] 3) = 2 * ((exp (- 1 / 18) + 1) / (1 + 2 * exp (- 1 / 18)))"
    unfolding smooth_1_1 by simp
  with mass_bound[OF exp_ge_half] show ?thesis by (simp add: kernel_3_2)
qed

section \<open>Properties of the peak extraction\<close>


lemma circularIndex_mod: "0 < n \<Longrightarrow> circularIndex i n = i mod n"
proof -
  assume n: "0 < n"
  have r: "js_rem i n = (if i mod n = 0 then 0 else if 0 \<le> i then i mod n else i mod n - n)"
  proof (cases "0 \<le> i")
    case True
    then show ?thesis using n by (auto simp: js_rem_def sgn_if)
  next
    case False
    then have "i < 0" by simp
    moreover have "(- i) mod n = (if i mod n = 0 then 0 else n - i mod n)"
      by (rule zmod_zminus1_eq_if)
    ultimately show ?thesis using n by (auto simp: js_rem_def sgn_if)
  qed
  have b: "0 \<le> i mod n" "i mod n < n" using n by simp_all
  show ?thesis
    unfolding circularIndex_def r using n b by (auto simp: js_rem_def sgn_if)
qed

lemma circularIndex_range: "0 < n \<Longrightarrow> 0 \<le> circularIndex i n \<and> circularIndex i n < n"
  by (simp add: circularIndex_mod)

lemma circularIndex_succ:
  "0 \<le> j \<Longrightarrow> j < n \<Longrightarrow> circularIndex (j + 1) n = (if j = n - 1 then 0 else j + 1)"
  by (simp add: circularIndex_mod)

lemma specArcBins_step:
  assumes "0 \<le> j" "j < int n" "0 \<le> e" "e < int n" "j \<noteq> e"
  shows "specArcBins n j e = j # specArcBins n (circularIndex (j + 1) (int n)) e"
proof (cases "j = int n - 1")
  case True
  with assms have ej: "e < j" by simp
  have c: "circularIndex (j + 1) (int n) = 0"
    using circularIndex_succ[of j "int n"] assms True by simp
  have "[j..int n - 1] = [j]" using True by (simp add: upto.simps[of j j])
  with ej assms show ?thesis
    unfolding c specArcBins_def by simp
next
  case False
  with assms have c: "circularIndex (j + 1) (int n) = j + 1" "j + 1 < int n"
    by (simp_all add: circularIndex_succ)
  show ?thesis
  proof (cases "j \<le> e")
    case True
    with assms have "j + 1 \<le> e" by simp
    with True show ?thesis unfolding c specArcBins_def by (simp add: upto.simps[of j e])
  next
    case False
    with c show ?thesis unfolding c specArcBins_def by (simp add: upto.simps[of j "int n - 1"])
  qed
qed

lemma specArcBins_single: "specArcBins n e e = [e]"
  by (simp add: specArcBins_def)

lemma arcTotals_weight:
  assumes "0 \<le> j" "j < int (length hist)" "0 \<le> e" "e < int (length hist)"
  shows "fst (arcTotals hist ss ls e j w s l) = w + specArcSum hist j e"
  using assms
proof (induction hist ss ls e j w s l rule: arcTotals.induct)
  case (1 hist ss ls e j w s l)
  show ?case
  proof (cases "j = e")
    case True
    then show ?thesis
      by (subst arcTotals.simps) (simp add: Let_def specArcSum_def specArcBins_single)
  next
    case False
    let ?j' = "circularIndex (j + 1) (int (length hist))"
    have n: "0 < int (length hist)" using "1.prems" by linarith
    have r: "0 \<le> ?j'" "?j' < int (length hist)"
      using circularIndex_range[OF n] by simp_all
    have ih: "fst (arcTotals hist ss ls e ?j' (w + hist ! nat j) (nan_add s (js_get ss j)) (nan_add l (js_get ls j)))
           = (w + hist ! nat j) + specArcSum hist ?j' e"
      using "1.IH"[OF refl refl refl refl _ r "1.prems"(3,4)] False "1.prems" by simp
    have "specArcSum hist j e = hist ! nat j + specArcSum hist ?j' e"
      unfolding specArcSum_def specArcBins_step[OF "1.prems" False] by simp
    with ih False "1.prems" show ?thesis
      by (subst arcTotals.simps) (simp add: Let_def)
  qed
qed


lemma toHuePeak_fields:
  "startHue (toHuePeak hist ss ls p) = circularIndex (leftValley p) (int (length hist))"
  "endHue (toHuePeak hist ss ls p) = circularIndex (rightValley p) (int (length hist))"
  "peakValue (toHuePeak hist ss ls p) = pvalue p"
  "totalWeight (toHuePeak hist ss ls p) =
     fst (arcTotals hist ss ls (circularIndex (rightValley p) (int (length hist)))
            (circularIndex (leftValley p) (int (length hist))) 0 (Some 0) (Some 0))"
  by (simp_all add: toHuePeak_def Let_def split: prod.splits)

lemma toHuePeak_weight:
  assumes "hist \<noteq> []"
  shows "totalWeight (toHuePeak hist ss ls p) =
           specArcSum hist (startHue (toHuePeak hist ss ls p)) (endHue (toHuePeak hist ss ls p))"
proof -
  have n: "0 < int (length hist)" using assms by simp
  show ?thesis
    unfolding toHuePeak_fields
    using arcTotals_weight[of "circularIndex (leftValley p) (int (length hist))" hist
        "circularIndex (rightValley p) (int (length hist))" ss ls 0 "Some 0" "Some 0"]
      circularIndex_range[OF n]
    by simp
qed

lemma convert_weight:
  assumes "c \<in> set (convertToHuePeaks lps hist ss ls)" and "hist \<noteq> []"
  shows "totalWeight c = specArcSum hist (startHue c) (endHue c)"
  using assms toHuePeak_weight[of hist ss ls] by (auto simp: convertToHuePeaks_def)

lemma set_aggregatedPeaks:
  "set (aggregatedPeaks d m) =
     set (convertToHuePeaks (mergeAdjacentPeaks (findValleys (findLocalPeaks (histogram d)) (histogram d))
            (histogram d) m) (histogram d) (saturationSum d) (lightnessSum d))"
  by (simp add: aggregatedPeaks_def Let_def)

lemma flat_result:
  assumes "histogram d \<noteq> []" "findLocalPeaks (histogram d) = []"
  shows "extractPeaks d m = [flatCluster (histogram d) (saturationSum d) (lightnessSum d)]"
  using assms by (simp add: extractPeaks_def Let_def)

lemma flatCluster_fields:
  "startHue (flatCluster h ss ls) = 0" "endHue (flatCluster h ss ls) = 0"
  "totalWeight (flatCluster h ss ls) = sum_list h"
  by (simp_all add: flatCluster_def Let_def)









lemma mergeStep_length: "length (mergeStep thr p ms) \<le> Suc (length ms)"
  by (simp add: mergeStep_def split: option.splits)



lemma fold_mergeStep_length:
  "length (fold (mergeStep thr) ps ms) \<le> length ms + length ps"
proof (induction ps arbitrary: ms)
  case Nil
  show ?case by simp
next
  case (Cons p ps)
  have "length (fold (mergeStep thr) ps (mergeStep thr p ms)) \<le> length (mergeStep thr p ms) + length ps"
    by (rule Cons.IH)
  with mergeStep_length[of thr p ms] show ?case by simp
qed



lemma mergeSimilarColors_length: "length (mergeSimilarColors ps thr) \<le> length ps"
  using fold_mergeStep_length[of thr ps "[]"] by (simp add: mergeSimilarColors_def)







lemma filterByWeight_length: "length (filterByWeight ps r) \<le> length ps"
  by (simp add: filterByWeight_def Let_def)




lemma nat_circularIndex_less: "xs \<noteq> [] \<Longrightarrow> nat (circularIndex i (int (length xs))) < length xs"
proof -
  assume "xs \<noteq> []"
  then have "0 < int (length xs)" by simp
  from circularIndex_range[OF this, of i] show ?thesis by (simp add: nat_less_iff)
qed

lemma isLocalPeak_pos:
  assumes "\<forall>x \<in> set hist. 0 \<le> x" "i < length hist" "isLocalPeak hist i"
  shows "0 < hist ! i"
proof -
  have ne: "hist \<noteq> []" using assms(2) by auto
  have "0 \<le> hist ! nat (circularIndex (int i - 1) (int (length hist)))"
    "0 \<le> hist ! nat (circularIndex (int i + 1) (int (length hist)))"
    using assms(1) nat_circularIndex_less[OF ne] by simp_all
  with assms(3) show ?thesis by (auto simp: isLocalPeak_def Let_def)
qed

lemma findLocalPeaks_member:
  assumes "p \<in> set (findLocalPeaks hist)"
  obtains i where "i < length hist" "isLocalPeak hist i" "index p = int i" "pvalue p = hist ! i"
  using assms by (auto simp: findLocalPeaks_def)

lemma valleyWalk_range:
  assumes "0 \<le> vi" "vi < int (length hist)"
  shows "0 \<le> valleyWalk hist step stop j vi vv \<and> valleyWalk hist step stop j vi vv < int (length hist)"
  using assms
proof (induction hist step stop j vi vv rule: valleyWalk.induct)
  case (1 hist step stop j valleyIdx valleyVal)
  show ?case
  proof (cases "j = stop \<or> \<not> (0 \<le> j \<and> j < int (length hist) \<and> 0 \<le> stop \<and> stop < int (length hist) \<and> (step = 1 \<or> step = - 1))")
    case True
    then show ?thesis using "1.prems" by (subst (1 2) valleyWalk.simps) (simp add: Let_def)
  next
    case False
    show ?thesis
    proof (cases "hist ! nat j < valleyVal")
      case True
      have "0 \<le> j" "j < int (length hist)" using False by simp_all
      from "1.IH"(1)[OF refl False True this]
      show ?thesis using False True by (subst (1 2) valleyWalk.simps) (simp add: Let_def)
    next
      case nlt: False
      from "1.IH"(2)[OF refl False nlt "1.prems"]
      show ?thesis using False nlt by (subst (1 2) valleyWalk.simps) (simp add: Let_def)
    qed
  qed
qed

lemma assignValleys_fields:
  "pvalue (assignValleys peaks hist i) = pvalue (peaks ! i)"
  "rightValley (assignValleys peaks hist i) =
     valleyWalk hist 1 (index (peaks ! nat (circularIndex (int i + 1) (int (length peaks)))))
       (circularIndex (index (peaks ! i) + 1) (int (length hist))) (index (peaks ! i)) (pvalue (peaks ! i))"
  by (simp_all add: assignValleys_def Let_def)

lemma findValleys_ok:
  assumes "\<forall>p \<in> set peaks. 0 < pvalue p \<and> 0 \<le> index p \<and> index p < int (length hist)"
  shows "peaksOk hist (findValleys peaks hist)"
proof (cases "length peaks = 1")
  case True
  then have "peaks ! 0 \<in> set peaks" by (cases peaks) simp_all
  with assms True show ?thesis by (simp add: findValleys_def peaksOk_def Let_def)
next
  case False
  have "0 < pvalue (assignValleys peaks hist i) \<and> 0 \<le> rightValley (assignValleys peaks hist i)
          \<and> rightValley (assignValleys peaks hist i) < int (length hist)"
    if "i < length peaks" for i
  proof -
    from that assms have p: "0 < pvalue (peaks ! i)" "0 \<le> index (peaks ! i)"
      "index (peaks ! i) < int (length hist)" by simp_all
    show ?thesis
      unfolding assignValleys_fields using p(1) valleyWalk_range[OF p(2,3)] by simp
  qed
  then have "peaksOk hist (map (assignValleys peaks hist) [0..<length peaks])"
    unfolding peaksOk_def by simp
  with False show ?thesis by (simp add: findValleys_def Let_def)
qed

lemma findLocalPeaks_ok:
  assumes "\<forall>x \<in> set hist. 0 \<le> x"
  shows "peaksOk hist (findValleys (findLocalPeaks hist) hist)"
proof (rule findValleys_ok, rule ballI)
  fix p assume "p \<in> set (findLocalPeaks hist)"
  then obtain i where i: "i < length hist" "isLocalPeak hist i" "index p = int i" "pvalue p = hist ! i"
    by (rule findLocalPeaks_member)
  with isLocalPeak_pos[OF assms i(1,2)]
  show "0 < pvalue p \<and> 0 \<le> index p \<and> index p < int (length hist)" by simp
qed


lemma hueDistance_half: "2 * hueDistance n a b \<le> n"
  by (simp add: hueDistance_def Let_def min_def)

lemma score_nonneg:
  fixes v mp :: real and n dist :: int
  assumes "0 \<le> v" "0 < mp" "0 < n" "2 * dist \<le> n"
  shows "0 \<le> v / mp * (0.5 + 0.5 * (1 - of_int dist / (of_int n / 2)))"
proof -
  have "real_of_int (2 * dist) \<le> real_of_int n" using assms(4) by (simp only: of_int_le_iff)
  then have "of_int dist / (of_int n / 2) \<le> (1::real)" using assms(3) by (simp add: field_simps)
  then have "0 \<le> 0.5 + 0.5 * (1 - real_of_int dist / (of_int n / 2))" by simp
  moreover have "0 \<le> v / mp" using assms(1,2) by simp
  ultimately show ?thesis by (rule mult_nonneg_nonneg[rotated])
qed

lemma scanPair_fst: "fst (scanPair hist peaks i b) = fst b \<or> fst (scanPair hist peaks i b) = int i"
  by (cases b) (simp add: scanPair_def Let_def split: option.splits)

lemma fold_scanPair_nonneg:
  "0 \<le> fst b \<Longrightarrow> 0 \<le> fst (fold (scanPair hist peaks) is b)"
proof (induction "is" arbitrary: b)
  case Nil
  then show ?case by simp
next
  case (Cons i "is")
  have "0 \<le> fst (scanPair hist peaks i b)"
    using scanPair_fst[of hist peaks i b] Cons.prems by auto
  then show ?case using Cons.IH by simp
qed

lemma scanPair_first:
  assumes ok: "peaksOk hist peaks" and nn: "\<forall>x \<in> set hist. 0 \<le> x" and ne: "peaks \<noteq> []"
  shows "fst (scanPair hist peaks 0 (- 1, - 1)) = 0"
proof -
  let ?curr = "peaks ! 0" and ?next = "peaks ! (1 mod length peaks)"
  have len: "0 < length peaks" using ne by simp
  then have "1 mod length peaks < length peaks" by (rule mod_less_divisor)
  with len have mem: "?curr \<in> set peaks" "?next \<in> set peaks" by simp_all
  with ok have pv: "0 < pvalue ?curr" "0 < pvalue ?next"
    and rv: "0 \<le> rightValley ?curr" "rightValley ?curr < int (length hist)"
    by (simp_all add: peaksOk_def)
  from rv have n: "0 < int (length hist)" by linarith
  from rv have "nat (rightValley ?curr) < length hist" by (simp add: nat_less_iff)
  with nn have v: "0 \<le> hist ! nat (rightValley ?curr)" by simp
  from rv have g: "js_get hist (rightValley ?curr) = Some (hist ! nat (rightValley ?curr))"
    by (simp add: js_get_def)
  from pv have mp: "0 < min (pvalue ?curr) (pvalue ?next)" by simp
  have "0 \<le> hist ! nat (rightValley ?curr) / min (pvalue ?curr) (pvalue ?next)
          * (0.5 + 0.5 * (1 - of_int (hueDistance (int (length hist)) (index ?curr) (index ?next))
                               / (of_int (int (length hist)) / 2)))"
    using v mp n hueDistance_half by (rule score_nonneg)
  then have "- 1 < hist ! nat (rightValley ?curr) / min (pvalue ?curr) (pvalue ?next)
          * (0.5 + 0.5 * (1 - of_int (hueDistance (int (length hist)) (index ?curr) (index ?next))
                               / (of_int (int (length hist)) / 2)))"
    by linarith
  with mp g show ?thesis
    by (simp add: scanPair_def Let_def)
qed

lemma findBestPair_nonneg:
  assumes "peaksOk hist peaks" "\<forall>x \<in> set hist. 0 \<le> x" "peaks \<noteq> []"
  shows "0 \<le> findBestPair hist peaks"
proof -
  have "[0..<length peaks] = 0 # [1..<length peaks]"
    using assms(3) by (simp add: upt_conv_Cons)
  then have "findBestPair hist peaks =
      fst (fold (scanPair hist peaks) [1..<length peaks] (scanPair hist peaks 0 (- 1, - 1)))"
    by (simp add: findBestPair_def)
  moreover have "0 \<le> fst (scanPair hist peaks 0 (- 1, - 1))"
    using scanPair_first[OF assms] by simp
  ultimately show ?thesis using fold_scanPair_nonneg by simp
qed

lemma fold_scanPair_range:
  "fst (fold (scanPair hist peaks) is b) = fst b \<or> fst (fold (scanPair hist peaks) is b) \<in> int ` set is"
proof (induction "is" arbitrary: b)
  case Nil
  show ?case by simp
next
  case (Cons i "is")
  from Cons[of "scanPair hist peaks i b"] scanPair_fst[of hist peaks i b]
  show ?case by auto
qed

lemma findBestPair_less:
  "0 \<le> findBestPair hist peaks \<Longrightarrow> nat (findBestPair hist peaks) < length peaks"
  using fold_scanPair_range[of hist peaks "[0..<length peaks]" "(- 1, - 1)"]
  by (auto simp: findBestPair_def)

lemma set_splice1: "set (splice1 xs i) \<subseteq> set xs"
  unfolding splice1_def using set_take_subset[of i xs] set_drop_subset[of "Suc i" xs] by auto

lemma length_splice1: "i < length xs \<Longrightarrow> length (splice1 xs i) = length xs - 1"
  by (simp add: splice1_def)

lemma mergePair_ok:
  assumes ok: "peaksOk hist peaks" and k: "k < length peaks"
  shows "peaksOk hist (mergePair peaks k)"
proof -
  let ?curr = "peaks ! k" and ?nextIdx = "(k + 1) mod length peaks"
  let ?next = "peaks ! ?nextIdx"
  have len: "0 < length peaks" using k by (cases peaks) simp_all
  then have nl: "?nextIdx < length peaks" by (rule mod_less_divisor)
  from ok k nl have c: "0 < pvalue ?curr" "0 < pvalue ?next"
    "0 \<le> rightValley ?curr \<and> rightValley ?curr < int (length hist)"
    "0 \<le> rightValley ?next \<and> rightValley ?next < int (length hist)"
    by (simp_all add: peaksOk_def)
  have a: "peaksOk hist (peaks[k := ?curr\<lparr>rightValley := rightValley ?next\<rparr>])"
    unfolding peaksOk_def
  proof
    fix p assume "p \<in> set (peaks[k := ?curr\<lparr>rightValley := rightValley ?next\<rparr>])"
    then have "p = ?curr\<lparr>rightValley := rightValley ?next\<rparr> \<or> p \<in> set peaks"
      using set_update_subset_insert[of peaks k] by auto
    then show "0 < pvalue p \<and> 0 \<le> rightValley p \<and> rightValley p < int (length hist)"
      using c ok by (auto simp: peaksOk_def)
  qed
  have b: "peaksOk hist (peaks[?nextIdx := ?next\<lparr>leftValley := leftValley ?curr\<rparr>])"
    unfolding peaksOk_def
  proof
    fix p assume "p \<in> set (peaks[?nextIdx := ?next\<lparr>leftValley := leftValley ?curr\<rparr>])"
    then have "p = ?next\<lparr>leftValley := leftValley ?curr\<rparr> \<or> p \<in> set peaks"
      using set_update_subset_insert[of peaks ?nextIdx] by auto
    then show "0 < pvalue p \<and> 0 \<le> rightValley p \<and> rightValley p < int (length hist)"
      using c ok by (auto simp: peaksOk_def)
  qed
  have sub: "peaksOk hist xs \<Longrightarrow> peaksOk hist (splice1 xs i)" for xs i
    using set_splice1[of xs i] by (auto simp: peaksOk_def)
  show ?thesis
    using sub[OF a] sub[OF b] by (simp add: mergePair_def Let_def)
qed

lemma mergeAdjacentPeaks_length:
  assumes "peaksOk hist peaks" "\<forall>x \<in> set hist. 0 \<le> x" "1 \<le> m"
  shows "int (length (mergeAdjacentPeaks peaks hist m)) \<le> m"
  using assms
proof (induction peaks hist m rule: mergeAdjacentPeaks.induct)
  case (1 peaks hist maxPeaks)
  show ?case
  proof (cases "int (length peaks) > maxPeaks")
    case False
    then show ?thesis by (subst mergeAdjacentPeaks.simps) simp
  next
    case True
    with "1.prems"(3) have ne: "peaks \<noteq> []" by auto
    have best: "0 \<le> findBestPair hist peaks"
      using findBestPair_nonneg[OF "1.prems"(1,2) ne] .
    have k: "nat (findBestPair hist peaks) < length peaks"
      using findBestPair_less[OF best] .
    have ok': "peaksOk hist (mergePair peaks (nat (findBestPair hist peaks)))"
      using mergePair_ok[OF "1.prems"(1) k] .
    from "1.IH"[OF _ ok' "1.prems"(2,3)] True best
    have "int (length (mergeAdjacentPeaks (mergePair peaks (nat (findBestPair hist peaks))) hist maxPeaks))
            \<le> maxPeaks"
      by simp
    then show ?thesis
      using True best by (subst mergeAdjacentPeaks.simps) simp
  qed
qed


lemma length_aggregatedPeaks:
  "length (aggregatedPeaks d m) =
     length (mergeAdjacentPeaks (findValleys (findLocalPeaks (histogram d)) (histogram d)) (histogram d) m)"
  by (simp add: aggregatedPeaks_def convertToHuePeaks_def Let_def)

lemma extractPeaks_peaks:
  assumes "histogram d \<noteq> []" "findLocalPeaks (histogram d) \<noteq> []"
  shows "extractPeaks d m =
     sort_key (\<lambda>p. - totalWeight p)
       (filterByWeight (mergeSimilarColors (aggregatedPeaks d m) 10) 0.01)"
  using assms by (simp add: extractPeaks_def Let_def)



lemma aggregated_arc:
  assumes "histogram d \<noteq> []" "c \<in> set (aggregatedPeaks d m)"
  shows "totalWeight c = specArcSum (histogram d) (startHue c) (endHue c)"
    and "0 \<le> startHue c \<and> startHue c < int (length (histogram d))"
    and "0 \<le> endHue c \<and> endHue c < int (length (histogram d))"
proof -
  from assms(2) obtain p where c: "c = toHuePeak (histogram d) (saturationSum d) (lightnessSum d) p"
    unfolding set_aggregatedPeaks convertToHuePeaks_def by auto
  have n: "0 < int (length (histogram d))" using assms(1) by simp
  show "totalWeight c = specArcSum (histogram d) (startHue c) (endHue c)"
    unfolding c using assms(1) by (rule toHuePeak_weight)
  show "0 \<le> startHue c \<and> startHue c < int (length (histogram d))"
    unfolding c toHuePeak_fields by (rule circularIndex_range[OF n])
  show "0 \<le> endHue c \<and> endHue c < int (length (histogram d))"
    unfolding c toHuePeak_fields by (rule circularIndex_range[OF n])
qed



text \<open>
  Claim C1, for histograms without negative entries. When no bin is negative, every
  local peak is higher than zero, so the adjacent-peak merge always finds a pair to merge
  and stops at \<open>maxPeaks\<close> peaks; fusion and filtering add no cluster. The list that
  \<open>extractPeaks\<close> returns has at most \<open>maxPeaks\<close> clusters, for every
  \<open>maxPeaks \<ge> 1\<close> and whatever the saturation and lightness arrays hold.
\<close>

theorem extractPeaks_length:
  assumes "\<forall>x \<in> set (histogram d). 0 \<le> x" and "1 \<le> maxPeaks"
  shows "int (length (extractPeaks d maxPeaks)) \<le> maxPeaks"
proof (cases "histogram d = [] \<or> findLocalPeaks (histogram d) = []")
  case True
  then show ?thesis using assms(2) by (auto simp: extractPeaks_def Let_def)
next
  case False
  then have ne: "histogram d \<noteq> []" "findLocalPeaks (histogram d) \<noteq> []" by simp_all
  have "length (extractPeaks d maxPeaks) \<le> length (mergeSimilarColors (aggregatedPeaks d maxPeaks) 10)"
    unfolding extractPeaks_peaks[OF ne] by (simp add: filterByWeight_length)
  also have "\<dots> \<le> length (aggregatedPeaks d maxPeaks)"
    by (rule mergeSimilarColors_length)
  finally have "int (length (extractPeaks d maxPeaks)) \<le> int (length (aggregatedPeaks d maxPeaks))"
    by simp
  also have "\<dots> \<le> maxPeaks"
    unfolding length_aggregatedPeaks
    using findLocalPeaks_ok[OF assms(1)] assms by (rule mergeAdjacentPeaks_length)
  finally show ?thesis .
qed

theorem extractPeaks_length_witness:
  "int (length (extractPeaks
     \<lparr>histogram = [0, 100, 90, 100, 0, 0], saturationSum = [0, 5000, 4500, 5000, 0, 0],
      lightnessSum = [0, 5000, 4500, 5000, 0, 0]\<rparr> 1)) \<le> 1"
  using extractPeaks_length[of "\<lparr>histogram = [0, 100, 90, 100, 0, 0],
      saturationSum = [0, 5000, 4500, 5000, 0, 0],
      lightnessSum = [0, 5000, 4500, 5000, 0, 0]\<rparr>" 1]
  by simp

lemma aggregated_64:
  "aggregatedPeaks
     \<lparr>histogram = [1000] @ replicate 30 (- 1) @ [0] @ replicate 30 (- 1) @ [0, - 1000],
      saturationSum = replicate 64 0, lightnessSum = replicate 64 0\<rparr> 1 =
   [\<lparr>startHue = 63, endHue = 1, peakHue = 0, peakValue = 1000, totalWeight = - 1,
     avgSaturation = Some 50, avgLightness = Some 50\<rparr>,
    \<lparr>startHue = 30, endHue = 32, peakHue = 31, peakValue = 0, totalWeight = - 2,
     avgSaturation = Some 50, avgLightness = Some 50\<rparr>,
    \<lparr>startHue = 61, endHue = 63, peakHue = 62, peakValue = 0, totalWeight = - 1001,
     avgSaturation = Some 50, avgLightness = Some 50\<rparr>]"
  by code_simp

lemma localPeaks_64:
  "findLocalPeaks ([1000] @ replicate 30 (- 1) @ [0] @ replicate 30 (- 1) @ [0, - 1000]) \<noteq> []"
  by code_simp

text \<open>
  Claim C1 as stated covers every numeric histogram. With negative bins the merge can
  stop above the cap: here the three peaks are 1000, 0 and 0, every adjacent pair has a
  lower peak that is not above zero, no pair is scored, and the loop leaves at its
  \<open>break\<close>. The peaks are more than 30 bins apart, so fusion compares no colours;
  the filter drops the cluster of weight -1001 and two clusters are returned for
  \<open>maxPeaks = 1\<close>.
\<close>

theorem extractPeaks_exceeds_maxPeaks:
  "extractPeaks
     \<lparr>histogram = [1000] @ replicate 30 (- 1) @ [0] @ replicate 30 (- 1) @ [0, - 1000],
      saturationSum = replicate 64 0, lightnessSum = replicate 64 0\<rparr> 1 =
   [\<lparr>startHue = 63, endHue = 1, peakHue = 0, peakValue = 1000, totalWeight = - 1,
     avgSaturation = Some 50, avgLightness = Some 50\<rparr>,
    \<lparr>startHue = 30, endHue = 32, peakHue = 31, peakValue = 0, totalWeight = - 2,
     avgSaturation = Some 50, avgLightness = Some 50\<rparr>]"
  unfolding extractPeaks_def Let_def HistogramData.simps aggregated_64
  using localPeaks_64
  by (simp add: mergeSimilarColors_def mergeStep_def hueDiff_def filterByWeight_def)


lemma localPeaks_flat: "findLocalPeaks [1, 1, 1] = []"
  by code_simp

lemma flatCluster_111:
  "flatCluster [1, 1, 1] [50, 50, 50] [50, 50, 50] =
     \<lparr>startHue = 0, endHue = 0, peakHue = 0, peakValue = 1, totalWeight = 3,
       avgSaturation = Some 50, avgLightness = Some 50\<rparr>"
  by (simp add: flatCluster_def maxIndex_def average_def)

lemma extractPeaks_111:
  "extractPeaks \<lparr>histogram = [1, 1, 1], saturationSum = [50, 50, 50], lightnessSum = [50, 50, 50]\<rparr> 5 =
     [\<lparr>startHue = 0, endHue = 0, peakHue = 0, peakValue = 1, totalWeight = 3,
       avgSaturation = Some 50, avgLightness = Some 50\<rparr>]"
  unfolding extractPeaks_def Let_def HistogramData.simps flatCluster_111[symmetric]
  by (simp add: localPeaks_flat)

lemma aggregated_010:
  "aggregatedPeaks \<lparr>histogram = [0, 1, 0], saturationSum = [0, 50, 0], lightnessSum = [0, 50, 0]\<rparr> 5 =
     [\<lparr>startHue = 2, endHue = 1, peakHue = 1, peakValue = 1, totalWeight = 1,
       avgSaturation = Some 50, avgLightness = Some 50\<rparr>]"
  by code_simp

lemma localPeaks_010: "findLocalPeaks [0, 1, 0] \<noteq> []"
  by code_simp

lemma fused_010:
  "mergeSimilarColors
     [\<lparr>startHue = 2, endHue = 1, peakHue = 1, peakValue = 1, totalWeight = 1,
       avgSaturation = Some 50, avgLightness = Some 50\<rparr>] 10 =
     [\<lparr>startHue = 2, endHue = 1, peakHue = 1, peakValue = 1, totalWeight = 1,
       avgSaturation = Some 50, avgLightness = Some 50\<rparr>]"
  by (simp add: mergeSimilarColors_def mergeStep_def)

lemma extractPeaks_010:
  "extractPeaks \<lparr>histogram = [0, 1, 0], saturationSum = [0, 50, 0], lightnessSum = [0, 50, 0]\<rparr> 5 =
     [\<lparr>startHue = 2, endHue = 1, peakHue = 1, peakValue = 1, totalWeight = 1,
       avgSaturation = Some 50, avgLightness = Some 50\<rparr>]"
  unfolding extractPeaks_def Let_def HistogramData.simps aggregated_010 fused_010
  using localPeaks_010 by (simp add: filterByWeight_def)

text \<open>
  Claim C2, as the code has it. A returned cluster that is one of the clusters built by
  range aggregation (a cluster that perceptual fusion did not change) has a
  \<open>totalWeight\<close> equal to the sum of the histogram over the circular arc from its
  \<open>startHue\<close> to its \<open>endHue\<close>, both included. The degenerate cluster of a flat
  histogram instead has \<open>startHue = endHue = 0\<close> and the sum of the whole histogram
  as its \<open>totalWeight\<close>.
\<close>

theorem cluster_weight_invariant:
  "(histogram d \<noteq> [] \<and> c \<in> set (extractPeaks d m) \<and> c \<in> set (aggregatedPeaks d m)
      \<longrightarrow> totalWeight c = specArcSum (histogram d) (startHue c) (endHue c)) \<and>
   (histogram d \<noteq> [] \<and> findLocalPeaks (histogram d) = []
      \<longrightarrow> (\<exists>f. extractPeaks d m = [f] \<and> startHue f = 0 \<and> endHue f = 0 \<and>
               totalWeight f = sum_list (histogram d)))"
proof (intro conjI impI)
  assume "histogram d \<noteq> [] \<and> c \<in> set (extractPeaks d m) \<and> c \<in> set (aggregatedPeaks d m)"
  then have "histogram d \<noteq> []" and "c \<in> set (aggregatedPeaks d m)" by simp_all
  then show "totalWeight c = specArcSum (histogram d) (startHue c) (endHue c)"
    by (rule aggregated_arc(1))
next
  assume "histogram d \<noteq> [] \<and> findLocalPeaks (histogram d) = []"
  then show "\<exists>f. extractPeaks d m = [f] \<and> startHue f = 0 \<and> endHue f = 0 \<and>
               totalWeight f = sum_list (histogram d)"
    using flat_result[of d m] by (simp add: flatCluster_fields)
qed

theorem cluster_weight_invariant_witness:
  "specArcBins 3 2 1 = [2, 0, 1] \<and>
   totalWeight \<lparr>startHue = 2, endHue = 1, peakHue = 1, peakValue = 1, totalWeight = 1,
       avgSaturation = Some 50, avgLightness = Some 50\<rparr> = specArcSum [0, 1, 0] 2 1 \<and>
   (\<exists>f. extractPeaks \<lparr>histogram = [1, 1, 1], saturationSum = [50, 50, 50],
                       lightnessSum = [50, 50, 50]\<rparr> 5 = [f] \<and>
        startHue f = 0 \<and> endHue f = 0 \<and> totalWeight f = sum_list [1, 1, 1])"
proof -
  have b: "specArcBins 3 2 1 = [2, 0, 1]"
    by (simp add: specArcBins_def upto.simps)
  have 1: "totalWeight \<lparr>startHue = 2, endHue = 1, peakHue = 1, peakValue = 1, totalWeight = 1,
       avgSaturation = Some 50, avgLightness = Some 50\<rparr> = specArcSum [0, 1, 0] 2 1"
    using cluster_weight_invariant[of
        "\<lparr>histogram = [0, 1, 0], saturationSum = [0, 50, 0], lightnessSum = [0, 50, 0]\<rparr>"
        "\<lparr>startHue = 2, endHue = 1, peakHue = 1, peakValue = 1, totalWeight = 1,
          avgSaturation = Some 50, avgLightness = Some 50\<rparr>" 5]
    unfolding extractPeaks_010 aggregated_010 by simp
  have 2: "\<exists>f. extractPeaks \<lparr>histogram = [1, 1, 1], saturationSum = [50, 50, 50],
                       lightnessSum = [50, 50, 50]\<rparr> 5 = [f] \<and>
        startHue f = 0 \<and> endHue f = 0 \<and> totalWeight f = sum_list [1, 1, 1]"
    using cluster_weight_invariant[of
        "\<lparr>histogram = [1, 1, 1], saturationSum = [50, 50, 50], lightnessSum = [50, 50, 50]\<rparr>"
        "\<lparr>startHue = 0, endHue = 0, peakHue = 0, peakValue = 1, totalWeight = 3,
          avgSaturation = Some 50, avgLightness = Some 50\<rparr>" 5] localPeaks_flat
    by simp
  from b 1 2 show ?thesis by blast
qed

text \<open>
  Claim C2 as stated includes the flat-histogram branch. For the flat histogram
  \<open>[1, 1, 1]\<close> the returned cluster has \<open>startHue = endHue = 0\<close> and
  \<open>totalWeight = 3\<close>, while the arc from bin 0 to bin 0 holds bin 0 alone, of weight 1.
\<close>

theorem flat_cluster_weight:
  "extractPeaks \<lparr>histogram = [1, 1, 1], saturationSum = [50, 50, 50], lightnessSum = [50, 50, 50]\<rparr> 5 =
     [\<lparr>startHue = 0, endHue = 0, peakHue = 0, peakValue = 1, totalWeight = 3,
       avgSaturation = Some 50, avgLightness = Some 50\<rparr>] \<and>
   specArcSum [1, 1, 1] 0 0 = 1"
proof -
  have "specArcSum [1, 1, 1] 0 0 = 1" by (simp add: specArcSum_def specArcBins_def)
  with extractPeaks_111 show ?thesis by (rule conjI)
qed

lemma labOfPeak_black: "labOfPeak h 0 0 = (0, 0, 0)"
  by (simp add: labOfPeak_def hslToRgb_def rgbToLab_def gammaExpand_def labF_def js_round_zero)



lemma sqrt_zero_terms:
  fixes d1 d2 d3 s1 s2 s3 rt :: real
  assumes "d1 = 0" "d2 = 0" "d3 = 0"
  shows "sqrt ((d1 / s1) ^ 2 + (d2 / s2) ^ 2 + (d3 / s3) ^ 2 + rt * (d2 / s2) * (d3 / s3)) = 0"
  by (simp add: assms)

lemma hue_turn_zero:
  fixes h c :: real
  shows "2 * sqrt c * sin (((if c = 0 then 0
                 else if \<bar>h - h\<bar> \<le> 180 then h - h
                 else if h - h > 180 then h - h - 360
                 else h - h + 360) * pi) / 360) = 0"
  by simp

lemma deltaE2000_same: "deltaE2000 (L, a, b) (L, a, b) = 0"
  unfolding deltaE2000_def Let_def prod.case
  by (rule sqrt_zero_terms) (simp, simp, rule hue_turn_zero)

lemma aggregated_5151:
  "aggregatedPeaks \<lparr>histogram = [5, 1, 5, 1], saturationSum = [0, 0, 0, 0],
      lightnessSum = [0, 0, 0, 0]\<rparr> 5 =
   [\<lparr>startHue = 3, endHue = 1, peakHue = 0, peakValue = 5, totalWeight = 7,
     avgSaturation = Some 0, avgLightness = Some 0\<rparr>,
    \<lparr>startHue = 1, endHue = 3, peakHue = 2, peakValue = 5, totalWeight = 7,
     avgSaturation = Some 0, avgLightness = Some 0\<rparr>]"
  by code_simp

lemma localPeaks_5151: "findLocalPeaks [5, 1, 5, 1] \<noteq> []"
  by code_simp

lemma similar_black:
  "similarColors 10
      \<lparr>startHue = 1, endHue = 3, peakHue = 2, peakValue = 5, totalWeight = 7,
       avgSaturation = Some 0, avgLightness = Some 0\<rparr>
      \<lparr>startHue = 3, endHue = 1, peakHue = 0, peakValue = 5, totalWeight = 7,
       avgSaturation = Some 0, avgLightness = Some 0\<rparr>"
  by (simp add: similarColors_def labOfPeak_black deltaE2000_same)

lemma fuse_5151:
  "fusePeak
      \<lparr>startHue = 3, endHue = 1, peakHue = 0, peakValue = 5, totalWeight = 7,
       avgSaturation = Some 0, avgLightness = Some 0\<rparr>
      \<lparr>startHue = 1, endHue = 3, peakHue = 2, peakValue = 5, totalWeight = 7,
       avgSaturation = Some 0, avgLightness = Some 0\<rparr> =
      \<lparr>startHue = 3, endHue = 1, peakHue = 0, peakValue = 5, totalWeight = 14,
       avgSaturation = Some 0, avgLightness = Some 0\<rparr>"
  by (simp add: fusePeak_def mergeHueRanges_def inRange_def weightedAverage_def)

lemma fused_5151:
  "mergeSimilarColors
     [\<lparr>startHue = 3, endHue = 1, peakHue = 0, peakValue = 5, totalWeight = 7,
       avgSaturation = Some 0, avgLightness = Some 0\<rparr>,
      \<lparr>startHue = 1, endHue = 3, peakHue = 2, peakValue = 5, totalWeight = 7,
       avgSaturation = Some 0, avgLightness = Some 0\<rparr>] 10 =
     [\<lparr>startHue = 3, endHue = 1, peakHue = 0, peakValue = 5, totalWeight = 14,
       avgSaturation = Some 0, avgLightness = Some 0\<rparr>]"
  unfolding mergeSimilarColors_def
  by (simp add: mergeStep_def hueDiff_def similar_black fuse_5151)

text \<open>
  Fusion also leaves the invariant behind. The two clusters of \<open>[5, 1, 5, 1]\<close> have
  weight 7 each and, with all saturation and lightness sums zero, the same reconstructed
  colour, so they are fused: the result keeps the arc from bin 3 to bin 1, whose bins
  weigh 7, and has \<open>totalWeight = 14\<close>.
\<close>

lemma fused_cluster_example:
  "extractPeaks \<lparr>histogram = [5, 1, 5, 1], saturationSum = [0, 0, 0, 0],
      lightnessSum = [0, 0, 0, 0]\<rparr> 5 =
     [\<lparr>startHue = 3, endHue = 1, peakHue = 0, peakValue = 5, totalWeight = 14,
       avgSaturation = Some 0, avgLightness = Some 0\<rparr>] \<and>
   specArcSum [5, 1, 5, 1] 3 1 = 7"
proof -
  have b: "specArcBins 4 3 1 = [3, 0, 1]"
    by (simp add: specArcBins_def upto.simps)
  have l: "length [5, 1, 5, 1 :: real] = 4" by simp
  have "specArcSum [5, 1, 5, 1] 3 1 = 7"
    unfolding specArcSum_def l b by simp
  moreover have "extractPeaks \<lparr>histogram = [5, 1, 5, 1], saturationSum = [0, 0, 0, 0],
      lightnessSum = [0, 0, 0, 0]\<rparr> 5 =
     [\<lparr>startHue = 3, endHue = 1, peakHue = 0, peakValue = 5, totalWeight = 14,
       avgSaturation = Some 0, avgLightness = Some 0\<rparr>]"
    unfolding extractPeaks_def Let_def HistogramData.simps aggregated_5151 fused_5151
    using localPeaks_5151 by (simp add: filterByWeight_def)
  ultimately show ?thesis by simp
qed









section \<open>Properties of local-maxima detection\<close>

lemma nat_circularIndex_pred:
  assumes "i < n"
  shows "nat (circularIndex (int i - 1) (int n)) = (i + n - 1) mod n"
proof -
  have n: "0 < int n" using assms by simp
  have "int ((i + n - 1) mod n) = (int i + int n - 1) mod int n"
    using assms by (simp add: zmod_int of_nat_diff)
  also have "\<dots> = (int i - 1) mod int n"
    using mod_add_self2[of "int i - 1" "int n"] by (simp add: algebra_simps)
  finally show ?thesis by (simp add: circularIndex_mod[OF n])
qed

lemma nat_circularIndex_succ:
  assumes "i < n"
  shows "nat (circularIndex (int i + 1) (int n)) = (i + 1) mod n"
proof -
  have n: "0 < int n" using assms by simp
  have "int ((i + 1) mod n) = (int i + 1) mod int n"
    by (simp add: zmod_int add.commute)
  then show ?thesis by (simp add: circularIndex_mod[OF n])
qed

lemma isLocalPeak_iff:
  assumes "i < length hist"
  shows "isLocalPeak hist i \<longleftrightarrow>
           hist ! i \<ge> hist ! ((i + length hist - 1) mod length hist) \<and>
           hist ! i \<ge> hist ! ((i + 1) mod length hist) \<and>
           (hist ! i > hist ! ((i + length hist - 1) mod length hist) \<or>
            hist ! i > hist ! ((i + 1) mod length hist))"
  unfolding isLocalPeak_def Let_def nat_circularIndex_pred[OF assms] nat_circularIndex_succ[OF assms]
  by auto

lemma index_findLocalPeaks:
  "int i \<in> index ` set (findLocalPeaks hist) \<longleftrightarrow> i < length hist \<and> isLocalPeak hist i"
  by (auto simp: findLocalPeaks_def image_iff)

text \<open>
  Claim C4, as the code has it. Bin \<open>i\<close> is recorded as a peak exactly when
  \<open>histogram[i]\<close> is at least as high as both circular neighbours and higher than at
  least one of them. In a flat run, the first bin (higher than the bin before, equal to
  the bin after) and the last bin (equal to the bin before, higher than the bin after)
  are both peaks, and a bin equal to both neighbours is not: a plateau of two or more
  bins that stands above its surroundings contributes two peaks.
\<close>

theorem findLocalPeaks_rule:
  assumes "i < length hist"
  shows "(int i \<in> index ` set (findLocalPeaks hist) \<longleftrightarrow>
            hist ! i \<ge> hist ! ((i + length hist - 1) mod length hist) \<and>
            hist ! i \<ge> hist ! ((i + 1) mod length hist) \<and>
            (hist ! i > hist ! ((i + length hist - 1) mod length hist) \<or>
             hist ! i > hist ! ((i + 1) mod length hist))) \<and>
         (hist ! ((i + length hist - 1) mod length hist) < hist ! i \<and>
            hist ! i = hist ! ((i + 1) mod length hist)
            \<longrightarrow> int i \<in> index ` set (findLocalPeaks hist)) \<and>
         (hist ! ((i + length hist - 1) mod length hist) = hist ! i \<and>
            hist ! i > hist ! ((i + 1) mod length hist)
            \<longrightarrow> int i \<in> index ` set (findLocalPeaks hist)) \<and>
         (hist ! ((i + length hist - 1) mod length hist) = hist ! i \<and>
            hist ! i = hist ! ((i + 1) mod length hist)
            \<longrightarrow> int i \<notin> index ` set (findLocalPeaks hist))"
  unfolding index_findLocalPeaks isLocalPeak_iff[OF assms] using assms by auto

theorem findLocalPeaks_rule_witness:
  "int 1 \<in> index ` set (findLocalPeaks [1, 3, 3, 3, 1]) \<and>
   int 3 \<in> index ` set (findLocalPeaks [1, 3, 3, 3, 1]) \<and>
   int 2 \<notin> index ` set (findLocalPeaks [1, 3, 3, 3, 1])"
  using findLocalPeaks_rule[of 1 "[1, 3, 3, 3, 1]"] findLocalPeaks_rule[of 3 "[1, 3, 3, 3, 1]"]
    findLocalPeaks_rule[of 2 "[1, 3, 3, 3, 1]"]
  by simp

text \<open>
  Claim C4 as stated lets a flat run contribute one peak only. The run of two bins of
  height 3 in \<open>[1, 3, 3, 1]\<close> gives two peaks, at bins 1 and 2.
\<close>

theorem plateau_two_peaks:
  "findLocalPeaks [1, 3, 3, 1] =
     [\<lparr>index = 1, pvalue = 3, leftValley = - 1, rightValley = - 1\<rparr>,
      \<lparr>index = 2, pvalue = 3, leftValley = - 1, rightValley = - 1\<rparr>]"
  by code_simp


section \<open>Properties of the histogram builder\<close>

lemma byte_range: "0 \<le> real (unat (x :: 8 word)) \<and> real (unat x) \<le> 255"
proof -
  have "unat x < 2 ^ LENGTH(8)" by (rule unsigned_less)
  then have "unat x \<le> 255" by simp
  then have "real (unat x) \<le> real 255" by (simp only: of_nat_le_iff)
  moreover have "0 \<le> real (unat x)" by (rule of_nat_0_le_iff)
  ultimately show ?thesis by simp
qed

lemma pixel_hsl_bounds:
  fixes r g b :: "8 word"
  assumes "rgbToHsl (real (unat r)) (real (unat g)) (real (unat b)) = (hue, saturation, lightness)"
  shows "0 \<le> hue" "hue \<le> 360"
  using rgbToHsl_bounds[of "real (unat r)" "real (unat g)" "real (unat b)"]
    byte_range[of r] byte_range[of g] byte_range[of b] assms
  by simp_all

lemma js_rem_nonneg: "0 \<le> a \<Longrightarrow> 0 < n \<Longrightarrow> js_rem a n = a mod n"
  by (simp add: js_rem_def sgn_if)

lemma bin_in_range:
  assumes "0 < bins" "0 \<le> hue"
  shows "js_rem \<lfloor>real_of_int hue / (360 / real_of_int bins)\<rfloor> bins
           = \<lfloor>real_of_int hue / (360 / real_of_int bins)\<rfloor> mod bins"
    and "nat (\<lfloor>real_of_int hue / (360 / real_of_int bins)\<rfloor> mod bins) < nat bins"
proof -
  have "0 \<le> real_of_int hue / (360 / real_of_int bins)" using assms by simp
  then have "0 \<le> \<lfloor>real_of_int hue / (360 / real_of_int bins)\<rfloor>" by simp
  then show "js_rem \<lfloor>real_of_int hue / (360 / real_of_int bins)\<rfloor> bins
           = \<lfloor>real_of_int hue / (360 / real_of_int bins)\<rfloor> mod bins"
    using assms(1) by (rule js_rem_nonneg)
  have "\<lfloor>real_of_int hue / (360 / real_of_int bins)\<rfloor> mod bins < bins"
    "0 \<le> \<lfloor>real_of_int hue / (360 / real_of_int bins)\<rfloor> mod bins"
    using assms(1) by simp_all
  then show "nat (\<lfloor>real_of_int hue / (360 / real_of_int bins)\<rfloor> mod bins) < nat bins"
    by simp
qed

lemma weight_pos:
  fixes saturation lightness :: int
  assumes "\<not> (saturation < 10 \<or> lightness < 5 \<or> lightness > 95)"
  shows "0 < (real_of_int saturation / 100) * (1 - \<bar>real_of_int lightness - 50\<bar> / 50)"
proof -
  have "5 \<le> real_of_int lightness" "real_of_int lightness \<le> 95" "10 \<le> real_of_int saturation"
    using assms by simp_all
  then have "\<bar>real_of_int lightness - 50\<bar> \<le> 45" by (simp add: abs_le_iff)
  then have "0 < 1 - \<bar>real_of_int lightness - 50\<bar> / 50" by simp
  moreover have "0 < real_of_int saturation / 100" using assms by simp
  ultimately show ?thesis by (rule mult_pos_pos[rotated])
qed

lemma accumulatePixel_skip:
  assumes "rgbToHsl (real (unat r)) (real (unat g)) (real (unat b)) = (hue, saturation, lightness)"
    and "unat a < 200 \<or> saturation < 10 \<or> lightness < 5 \<or> lightness > 95"
  shows "accumulatePixel bins (r, g, b, a) acc = acc"
  using assms by (auto simp: accumulatePixel_def)

lemma accumulatePixel_keep:
  assumes "rgbToHsl (real (unat r)) (real (unat g)) (real (unat b)) = (hue, saturation, lightness)"
    and "\<not> (unat a < 200 \<or> saturation < 10 \<or> lightness < 5 \<or> lightness > 95)"
    and "0 < bins"
  shows "accumulatePixel bins (r, g, b, a) acc =
     \<lparr>histogram = (histogram acc)
        [nat (\<lfloor>real_of_int hue / (360 / real_of_int bins)\<rfloor> mod bins) :=
           histogram acc ! nat (\<lfloor>real_of_int hue / (360 / real_of_int bins)\<rfloor> mod bins)
           + (real_of_int saturation / 100) * (1 - \<bar>real_of_int lightness - 50\<bar> / 50)],
      saturationSum = (saturationSum acc)
        [nat (\<lfloor>real_of_int hue / (360 / real_of_int bins)\<rfloor> mod bins) :=
           saturationSum acc ! nat (\<lfloor>real_of_int hue / (360 / real_of_int bins)\<rfloor> mod bins)
           + real_of_int saturation
             * ((real_of_int saturation / 100) * (1 - \<bar>real_of_int lightness - 50\<bar> / 50))],
      lightnessSum = (lightnessSum acc)
        [nat (\<lfloor>real_of_int hue / (360 / real_of_int bins)\<rfloor> mod bins) :=
           lightnessSum acc ! nat (\<lfloor>real_of_int hue / (360 / real_of_int bins)\<rfloor> mod bins)
           + real_of_int lightness
             * ((real_of_int saturation / 100) * (1 - \<bar>real_of_int lightness - 50\<bar> / 50))]\<rparr>"
proof -
  have "0 \<le> hue" using assms(1) by (rule pixel_hsl_bounds)
  from bin_in_range(1)[OF assms(3) this] assms show ?thesis
    by (simp add: accumulatePixel_def Let_def)
qed

lemma accumulatePixel_cases:
  assumes "0 \<le> bins"
  obtains (skip) "accumulatePixel bins px acc = acc"
  | (keep) k w s l where "0 < (w::real)" "(10::int) \<le> s" "(5::int) \<le> l" "k < nat bins"
      "accumulatePixel bins px acc =
         \<lparr>histogram = (histogram acc)[k := histogram acc ! k + w],
          saturationSum = (saturationSum acc)[k := saturationSum acc ! k + real_of_int s * w],
          lightnessSum = (lightnessSum acc)[k := lightnessSum acc ! k + real_of_int l * w]\<rparr>"
proof -
  obtain r g b a where px: "px = (r, g, b, a)" by (cases px)
  obtain hue saturation lightness where
    hsl: "rgbToHsl (real (unat r)) (real (unat g)) (real (unat b)) = (hue, saturation, lightness)"
    by (cases "rgbToHsl (real (unat r)) (real (unat g)) (real (unat b))")
  show thesis
  proof (cases "unat a < 200 \<or> saturation < 10 \<or> lightness < 5 \<or> lightness > 95")
    case True
    from accumulatePixel_skip[OF hsl this] show thesis unfolding px[symmetric] by (rule skip)
  next
    case keep': False
    show thesis
    proof (cases "bins = 0")
      case True
      then have "accumulatePixel bins px acc = acc"
        using hsl by (simp add: accumulatePixel_def px)
      then show thesis by (rule skip)
    next
      case False
      with assms have bins: "0 < bins" by simp
      have h0: "0 \<le> hue" using hsl by (rule pixel_hsl_bounds)
      show thesis
      proof (rule keep)
        from keep' have "\<not> (saturation < 10 \<or> lightness < 5 \<or> lightness > 95)" by simp
        then show "0 < (real_of_int saturation / 100) * (1 - \<bar>real_of_int lightness - 50\<bar> / 50)"
          by (rule weight_pos)
        show "10 \<le> saturation" "5 \<le> lightness" using keep' by simp_all
        show "nat (\<lfloor>real_of_int hue / (360 / real_of_int bins)\<rfloor> mod bins) < nat bins"
          using bins h0 by (rule bin_in_range(2))
        show "accumulatePixel bins px acc =
           \<lparr>histogram = (histogram acc)
              [nat (\<lfloor>real_of_int hue / (360 / real_of_int bins)\<rfloor> mod bins) :=
               histogram acc ! nat (\<lfloor>real_of_int hue / (360 / real_of_int bins)\<rfloor> mod bins)
               + (real_of_int saturation / 100) * (1 - \<bar>real_of_int lightness - 50\<bar> / 50)],
            saturationSum = (saturationSum acc)
              [nat (\<lfloor>real_of_int hue / (360 / real_of_int bins)\<rfloor> mod bins) :=
               saturationSum acc ! nat (\<lfloor>real_of_int hue / (360 / real_of_int bins)\<rfloor> mod bins)
               + real_of_int saturation
                 * ((real_of_int saturation / 100) * (1 - \<bar>real_of_int lightness - 50\<bar> / 50))],
            lightnessSum = (lightnessSum acc)
              [nat (\<lfloor>real_of_int hue / (360 / real_of_int bins)\<rfloor> mod bins) :=
               lightnessSum acc ! nat (\<lfloor>real_of_int hue / (360 / real_of_int bins)\<rfloor> mod bins)
               + real_of_int lightness
                 * ((real_of_int saturation / 100) * (1 - \<bar>real_of_int lightness - 50\<bar> / 50))]\<rparr>"
          unfolding px using hsl keep' bins by (rule accumulatePixel_keep)
      qed
    qed
  qed
qed

lemma update_nonneg:
  fixes xs :: "real list"
  assumes "\<forall>x \<in> set xs. 0 \<le> x" "k < length xs" "0 \<le> v"
  shows "\<forall>x \<in> set (xs[k := xs ! k + v]). 0 \<le> x"
proof
  fix x assume "x \<in> set (xs[k := xs ! k + v])"
  then have "x = xs ! k + v \<or> x \<in> set xs"
    using set_update_subset_insert[of xs k] by auto
  moreover have "0 \<le> xs ! k" using assms(1,2) by simp
  ultimately show "0 \<le> x" using assms(1,3) by auto
qed

lemma update_mono:
  fixes xs :: "real list"
  assumes "k < length xs" "0 \<le> v"
  shows "xs ! j \<le> xs[k := xs ! k + v] ! j"
  using assms by (cases "j = k") simp_all

lemma accumulatePixel_invariant:
  assumes "0 \<le> bins" and "histOk bins acc"
  shows "histOk bins (accumulatePixel bins px acc)"
    and "histogram acc ! j \<le> histogram (accumulatePixel bins px acc) ! j"
    and "saturationSum acc ! j \<le> saturationSum (accumulatePixel bins px acc) ! j"
    and "lightnessSum acc ! j \<le> lightnessSum (accumulatePixel bins px acc) ! j"
proof -
  have all: "histOk bins (accumulatePixel bins px acc) \<and>
      histogram acc ! j \<le> histogram (accumulatePixel bins px acc) ! j \<and>
      saturationSum acc ! j \<le> saturationSum (accumulatePixel bins px acc) ! j \<and>
      lightnessSum acc ! j \<le> lightnessSum (accumulatePixel bins px acc) ! j"
  using assms(1)
  proof (cases rule: accumulatePixel_cases[where bins = bins and px = px and acc = acc])
    case skip
    with assms(2) show ?thesis by simp
  next
    case (keep k w s l)
    from assms(2) have len: "k < length (histogram acc)" "k < length (saturationSum acc)"
      "k < length (lightnessSum acc)"
      using keep(4) by (simp_all add: histOk_def)
    have sw: "0 \<le> real_of_int s * w" and lw: "0 \<le> real_of_int l * w" and w: "0 \<le> w"
      using keep(1,2,3) by simp_all
    from assms(2) have nn: "\<forall>x \<in> set (histogram acc). 0 \<le> x"
      "\<forall>x \<in> set (saturationSum acc). 0 \<le> x" "\<forall>x \<in> set (lightnessSum acc). 0 \<le> x"
      by (simp_all add: histOk_def)
    have "histOk bins (accumulatePixel bins px acc)"
      unfolding keep(5) histOk_def
      using update_nonneg[OF nn(1) len(1) w] update_nonneg[OF nn(2) len(2) sw]
        update_nonneg[OF nn(3) len(3) lw] assms(2)
      by (simp add: histOk_def)
    moreover have "histogram acc ! j \<le> histogram (accumulatePixel bins px acc) ! j"
      unfolding keep(5) using update_mono[OF len(1) w] by simp
    moreover have "saturationSum acc ! j \<le> saturationSum (accumulatePixel bins px acc) ! j"
      unfolding keep(5) using update_mono[OF len(2) sw] by simp
    moreover have "lightnessSum acc ! j \<le> lightnessSum (accumulatePixel bins px acc) ! j"
      unfolding keep(5) using update_mono[OF len(3) lw] by simp
    ultimately show ?thesis by simp
  qed
  then show "histOk bins (accumulatePixel bins px acc)"
    and "histogram acc ! j \<le> histogram (accumulatePixel bins px acc) ! j"
    and "saturationSum acc ! j \<le> saturationSum (accumulatePixel bins px acc) ! j"
    and "lightnessSum acc ! j \<le> lightnessSum (accumulatePixel bins px acc) ! j"
    by simp_all
qed

lemma fold_accumulatePixel_ok:
  assumes "0 \<le> bins" "histOk bins acc"
  shows "histOk bins (fold (accumulatePixel bins) pixels acc)"
  using assms(2)
proof (induction pixels arbitrary: acc)
  case Nil
  then show ?case by simp
next
  case (Cons px pixels)
  from accumulatePixel_invariant(1)[OF assms(1) Cons.prems] Cons.IH show ?case by simp
qed

lemma emptyHistogram_ok: "histOk bins (emptyHistogram bins)"
  by (simp add: histOk_def emptyHistogram_def)

lemma extractHueHistogram_Inr:
  assumes "0 \<le> bins" "bins < 2 ^ 32"
  shows "extractHueHistogram pixels bins = Inr (fold (accumulatePixel bins) pixels (emptyHistogram bins))"
    and "histOk bins (fold (accumulatePixel bins) pixels (emptyHistogram bins))"
    and "extractHueHistogram (pixels @ [px]) bins =
           Inr (accumulatePixel bins px (fold (accumulatePixel bins) pixels (emptyHistogram bins)))"
  using assms fold_accumulatePixel_ok[OF assms(1) emptyHistogram_ok]
  by (simp_all add: extractHueHistogram_def)

lemma red_pixel: "rgbToHsl 255 0 0 = (0, 100, 50)"
  by (simp add: rgbToHsl_def js_round_def Let_def)

lemma emptyHistogram_4:
  "emptyHistogram 4 =
     \<lparr>histogram = [0, 0, 0, 0], saturationSum = [0, 0, 0, 0], lightnessSum = [0, 0, 0, 0]\<rparr>"
  by (simp add: emptyHistogram_def eval_nat_numeral)

lemma histogram_empty:
  "extractHueHistogram [] 4 =
     Inr \<lparr>histogram = [0, 0, 0, 0], saturationSum = [0, 0, 0, 0], lightnessSum = [0, 0, 0, 0]\<rparr>"
  by (simp add: extractHueHistogram_def emptyHistogram_4)

lemma histogram_red:
  "extractHueHistogram [(255, 0, 0, 255)] 4 =
     Inr \<lparr>histogram = [1, 0, 0, 0], saturationSum = [100, 0, 0, 0], lightnessSum = [50, 0, 0, 0]\<rparr>"
  by (simp add: extractHueHistogram_def emptyHistogram_4 accumulatePixel_def red_pixel js_rem_def Let_def)


text \<open>
  Claim C10. Let \<open>bins \<ge> 1\<close>. When \<open>bins\<close> is \<open>2^32\<close> or more, \<open>new Array(bins)\<close>
  throws and no array is returned. Otherwise \<open>extractHueHistogram\<close> returns three
  arrays without a negative entry; appending one more pixel to the buffer lowers no
  entry of the three arrays, and a pixel that passes the alpha, saturation and lightness
  filters has a weight above zero: the entry of its bin in \<open>histogram\<close> grows.
\<close>

theorem extractHueHistogram_nonneg:
  assumes "1 \<le> bins"
    and "rgbToHsl (real (unat r)) (real (unat g)) (real (unat b)) = (hue, saturation, lightness)"
  shows "(2 ^ 32 \<le> bins \<longrightarrow> extractHueHistogram pixels bins = Inl RangeError) \<and>
         (bins < 2 ^ 32 \<longrightarrow>
           (\<exists>h h'. extractHueHistogram pixels bins = Inr h \<and>
              extractHueHistogram (pixels @ [(r, g, b, a)]) bins = Inr h' \<and>
              (\<forall>x \<in> set (histogram h) \<union> set (saturationSum h) \<union> set (lightnessSum h). 0 \<le> x) \<and>
              (\<forall>k < nat bins. histogram h ! k \<le> histogram h' ! k \<and>
                               saturationSum h ! k \<le> saturationSum h' ! k \<and>
                               lightnessSum h ! k \<le> lightnessSum h' ! k) \<and>
              (\<not> (unat a < 200 \<or> saturation < 10 \<or> lightness < 5 \<or> lightness > 95) \<longrightarrow>
                 (\<exists>k < nat bins. histogram h ! k < histogram h' ! k))))"
proof (intro conjI impI)
  assume "2 ^ 32 \<le> bins"
  then show "extractHueHistogram pixels bins = Inl RangeError"
    by (simp add: extractHueHistogram_def)
next
  assume lt32: "bins < 2 ^ 32"
  have b: "0 \<le> bins" "0 < bins" using assms(1) by simp_all
  define h where "h = fold (accumulatePixel bins) pixels (emptyHistogram bins)"
  define h' where "h' = accumulatePixel bins (r, g, b, a) h"
  note e = extractHueHistogram_Inr[OF b(1) lt32, where pixels = pixels, folded h_def]
  have 1: "extractHueHistogram pixels bins = Inr h" by (rule e(1))
  have 2: "extractHueHistogram (pixels @ [(r, g, b, a)]) bins = Inr h'"
    unfolding h'_def by (rule e(3))
  have 3: "\<forall>x \<in> set (histogram h) \<union> set (saturationSum h) \<union> set (lightnessSum h). 0 \<le> x"
    using e(2) by (auto simp: histOk_def)
  have 4: "\<forall>k < nat bins. histogram h ! k \<le> histogram h' ! k \<and>
                            saturationSum h ! k \<le> saturationSum h' ! k \<and>
                            lightnessSum h ! k \<le> lightnessSum h' ! k"
    unfolding h'_def using accumulatePixel_invariant(2-4)[OF b(1) e(2)] by simp
  have 5: "\<exists>k < nat bins. histogram h ! k < histogram h' ! k"
    if k: "\<not> (unat a < 200 \<or> saturation < 10 \<or> lightness < 5 \<or> lightness > 95)"
  proof -
    let ?bin = "nat (\<lfloor>real_of_int hue / (360 / real_of_int bins)\<rfloor> mod bins)"
    let ?w = "(real_of_int saturation / 100) * (1 - \<bar>real_of_int lightness - 50\<bar> / 50)"
    have "0 \<le> hue" using assms(2) by (rule pixel_hsl_bounds)
    with b(2) have lt: "?bin < nat bins" by (rule bin_in_range(2))
    then have len: "?bin < length (histogram h)" using e(2) by (simp add: histOk_def)
    from k have "\<not> (saturation < 10 \<or> lightness < 5 \<or> lightness > 95)" by simp
    then have w: "0 < ?w" by (rule weight_pos)
    have "histogram h' = (histogram h)[?bin := histogram h ! ?bin + ?w]"
      unfolding h'_def accumulatePixel_keep[OF assms(2) k b(2)] by simp
    then have "histogram h' ! ?bin = histogram h ! ?bin + ?w"
      using len by simp
    with w have "histogram h ! ?bin < histogram h' ! ?bin" by simp
    with lt show ?thesis by blast
  qed
  from 1 2 3 4 5 show "\<exists>h h'. extractHueHistogram pixels bins = Inr h \<and>
              extractHueHistogram (pixels @ [(r, g, b, a)]) bins = Inr h' \<and>
              (\<forall>x \<in> set (histogram h) \<union> set (saturationSum h) \<union> set (lightnessSum h). 0 \<le> x) \<and>
              (\<forall>k < nat bins. histogram h ! k \<le> histogram h' ! k \<and>
                               saturationSum h ! k \<le> saturationSum h' ! k \<and>
                               lightnessSum h ! k \<le> lightnessSum h' ! k) \<and>
              (\<not> (unat a < 200 \<or> saturation < 10 \<or> lightness < 5 \<or> lightness > 95) \<longrightarrow>
                 (\<exists>k < nat bins. histogram h ! k < histogram h' ! k))"
    by blast
qed

theorem extractHueHistogram_nonneg_witness:
  "extractHueHistogram [] 4 =
     Inr \<lparr>histogram = [0, 0, 0, 0], saturationSum = [0, 0, 0, 0], lightnessSum = [0, 0, 0, 0]\<rparr> \<and>
   extractHueHistogram ([] @ [(255, 0, 0, 255)]) 4 =
     Inr \<lparr>histogram = [1, 0, 0, 0], saturationSum = [100, 0, 0, 0], lightnessSum = [50, 0, 0, 0]\<rparr> \<and>
   (\<exists>k < nat 4. [0, 0, 0, 0 :: real] ! k < [1, 0, 0, 0] ! k) \<and>
   extractHueHistogram [] (2 ^ 32) = Inl RangeError"
proof -
  have red: "rgbToHsl (real (unat (255 :: 8 word))) (real (unat (0 :: 8 word))) (real (unat (0 :: 8 word)))
      = (0, 100, 50)"
    by (simp add: red_pixel)
  have after_red: "extractHueHistogram ([] @ [(255, 0, 0, 255)]) 4 =
     Inr \<lparr>histogram = [1, 0, 0, 0], saturationSum = [100, 0, 0, 0], lightnessSum = [50, 0, 0, 0]\<rparr>"
    by (simp add: histogram_red)
  have one: "(1::int) \<le> 4" by simp
  from extractHueHistogram_nonneg[OF one red, of "[]" 255]
  obtain h h' where "extractHueHistogram [] 4 = Inr h"
    "extractHueHistogram ([] @ [(255, 0, 0, 255)]) 4 = Inr h'"
    "\<not> (unat (255 :: 8 word) < 200 \<or> (100::int) < 10 \<or> (50::int) < 5 \<or> (50::int) > 95) \<longrightarrow>
       (\<exists>k < nat 4. histogram h ! k < histogram h' ! k)"
    by auto
  then have "\<exists>k < nat 4. [0, 0, 0, 0 :: real] ! k < [1, 0, 0, 0] ! k"
    unfolding histogram_empty after_red by auto
  moreover have "(1::int) \<le> 2 ^ 32" by simp
  from extractHueHistogram_nonneg[OF this red, of "[]" 255]
  have "extractHueHistogram [] (2 ^ 32) = Inl RangeError" by simp
  ultimately show ?thesis using histogram_empty after_red by blast
qed

section \<open>Properties of the double rounding\<close>

lemma rne_bounds: "\<lfloor>y\<rfloor> \<le> rne y" "rne y \<le> \<lfloor>y\<rfloor> + 1"
  by (simp_all add: rne_def Let_def)

lemma rne_int: "rne (of_int n) = n"
  by (simp add: rne_def)

lemma rne_mono:
  assumes "y \<le> z"
  shows "rne y \<le> rne z"
proof (cases "\<lfloor>y\<rfloor> = \<lfloor>z\<rfloor>")
  case True
  with assms show ?thesis by (auto simp: rne_def Let_def)
next
  case False
  with assms have "\<lfloor>y\<rfloor> + 1 \<le> \<lfloor>z\<rfloor>" using floor_mono[OF assms] by linarith
  with rne_bounds(2)[of y] rne_bounds(1)[of z] show ?thesis by linarith
qed

lemma rne_minus: "rne (- y) = - rne y"
proof (cases "y = of_int \<lfloor>y\<rfloor>")
  case True
  then obtain n where y: "y = of_int n" ..
  have "- y = of_int (- n)" by (simp add: y)
  then show ?thesis unfolding y by (simp only: rne_int)
next
  case False
  then have f: "\<lfloor>- y\<rfloor> = - \<lfloor>y\<rfloor> - 1"
    by (metis ceiling_altdef ceiling_def add_diff_cancel_right' minus_diff_eq uminus_add_conv_diff)
  have odd_even: "even (- \<lfloor>y\<rfloor> - 1) \<longleftrightarrow> odd \<lfloor>y\<rfloor>" by simp
  show ?thesis
    unfolding rne_def Let_def f odd_even
    by (auto simp: algebra_simps)
qed

lemma rne_close: "\<bar>of_int (rne y) - y\<bar> \<le> 1 / 2"
proof -
  have "of_int \<lfloor>y\<rfloor> \<le> y" "y < of_int \<lfloor>y\<rfloor> + 1" by linarith+
  then show ?thesis by (auto simp: rne_def Let_def)
qed

lemma bitlen_unique:
  assumes "2 ^ k \<le> n" "n < 2 ^ (k + 1)"
  shows "bitlen n = int k + 1"
proof -
  have "0 < (2::int) ^ k" by simp
  with assms(1) have pos: "0 < n" by linarith
  note b = bitlen_bounds[OF pos]
  from pos have b1: "1 \<le> bitlen n" by (auto simp: bitlen_alt_def)
  have "\<not> nat (bitlen n - 1) < k"
  proof
    assume "nat (bitlen n - 1) < k"
    then have "nat (bitlen n) \<le> k" using b1 by linarith
    then have "(2::int) ^ nat (bitlen n) \<le> 2 ^ k" by (simp add: power_increasing)
    with b assms(1) show False by linarith
  qed
  moreover have "\<not> k < nat (bitlen n - 1)"
  proof
    assume "k < nat (bitlen n - 1)"
    then have "k + 1 \<le> nat (bitlen n - 1)" by simp
    then have "(2::int) ^ (k + 1) \<le> 2 ^ nat (bitlen n - 1)" by (rule power_increasing) simp
    with b assms(2) show False by linarith
  qed
  ultimately have "nat (bitlen n - 1) = k" by linarith
  with b1 show ?thesis by linarith
qed

lemma roundTo_at:
  assumes "2 ^ k \<le> \<bar>x\<bar> * 2 ^ a" "\<bar>x\<bar> * 2 ^ a < 2 ^ (k + 1)"
  shows "roundTo a p x = of_int (rne (x * 2 ^ (a + p) / 2 ^ k)) * 2 ^ k / 2 ^ (a + p)"
proof -
  have "real_of_int (2 ^ k) \<le> \<bar>x\<bar> * 2 ^ a" using assms(1) by simp
  then have "(2::int) ^ k \<le> \<lfloor>\<bar>x\<bar> * 2 ^ a\<rfloor>" by (simp only: le_floor_iff)
  moreover have "\<bar>x\<bar> * 2 ^ a < real_of_int (2 ^ (k + 1))" using assms(2) by simp
  then have "\<lfloor>\<bar>x\<bar> * 2 ^ a\<rfloor> < (2::int) ^ (k + 1)" by (simp only: floor_less_iff)
  ultimately have "bitlen \<lfloor>\<bar>x\<bar> * 2 ^ a\<rfloor> = int k + 1" by (rule bitlen_unique)
  then show ?thesis by (simp add: roundTo_def Let_def)
qed

lemma roundTo_zero: "roundTo a p 0 = 0"
  by (simp add: roundTo_def rne_def)

lemma roundTo_minus: "roundTo a p (- x) = - roundTo a p x"
  by (simp add: roundTo_def Let_def rne_minus)

lemma roundTo_scale:
  assumes "0 \<le> x" and k: "k = nat (bitlen \<lfloor>x * 2 ^ a\<rfloor> - 1)"
  shows "roundTo a p x = of_int (rne (x * 2 ^ (a + p) / 2 ^ k)) * 2 ^ k / 2 ^ (a + p)"
    and "x * 2 ^ a < 2 ^ (k + 1)"
    and "1 \<le> k \<Longrightarrow> 2 ^ k \<le> x * 2 ^ a"
proof -
  define n where "n = \<lfloor>x * 2 ^ a\<rfloor>"
  have ax: "\<bar>x\<bar> = x" using assms(1) by simp
  show "roundTo a p x = of_int (rne (x * 2 ^ (a + p) / 2 ^ k)) * 2 ^ k / 2 ^ (a + p)"
    by (simp add: roundTo_def Let_def ax k)
  have n0: "0 \<le> n" using assms(1) by (simp add: n_def)
  have up: "x * 2 ^ a < of_int n + 1" unfolding n_def by linarith
  have lo: "of_int n \<le> x * 2 ^ a" unfolding n_def by linarith
  show "x * 2 ^ a < 2 ^ (k + 1)"
  proof (cases "n = 0")
    case True
    have "(1::real) \<le> 2 ^ (k + 1)" by (rule one_le_power) simp
    with up True show ?thesis by simp
  next
    case False
    with n0 have pos: "0 < n" by simp
    then have b1: "1 \<le> bitlen n" by (auto simp: bitlen_alt_def)
    then have "nat (bitlen n) = k + 1" unfolding k n_def[symmetric] by linarith
    with bitlen_bounds[OF pos] have "n < 2 ^ (k + 1)" by simp
    then have "n + 1 \<le> 2 ^ (k + 1)" by simp
    then have "real_of_int (n + 1) \<le> real_of_int (2 ^ (k + 1))" by (simp only: of_int_le_iff)
    with up show ?thesis by simp
  qed
  show "2 ^ k \<le> x * 2 ^ a" if "1 \<le> k"
  proof -
    from that have "0 < bitlen n - 1" unfolding k n_def[symmetric] by linarith
    then have pos: "0 < n" using bitlen_eq_zero_iff[of n] by linarith
    from bitlen_bounds[OF pos] have "2 ^ k \<le> n" unfolding k n_def[symmetric] by simp
    then have "(2::real) ^ k \<le> real_of_int n" by simp
    with lo show ?thesis by linarith
  qed
qed

lemma roundTo_window:
  assumes "0 \<le> x" and k: "k = nat (bitlen \<lfloor>x * 2 ^ a\<rfloor> - 1)"
  shows "0 \<le> roundTo a p x"
    and "roundTo a p x * 2 ^ (a + p) \<le> 2 ^ (p + 1 + k)"
    and "1 \<le> k \<Longrightarrow> 2 ^ (p + k) \<le> roundTo a p x * 2 ^ (a + p)"
proof -
  note s = roundTo_scale[OF assms]
  define m where "m = x * 2 ^ (a + p) / 2 ^ k"
  have fx: "roundTo a p x * 2 ^ (a + p) = of_int (rne m) * 2 ^ k" unfolding s(1) m_def by simp
  have m0: "0 \<le> m" using assms(1) by (simp add: m_def)
  have "rne (of_int 0) \<le> rne m" using m0 by (intro rne_mono) simp
  then have r0: "0 \<le> rne m" by (simp only: rne_int)
  then show "0 \<le> roundTo a p x" unfolding s(1) m_def[symmetric] by simp
  have e: "m = x * 2 ^ a * (2 ^ p / 2 ^ k)" by (simp add: m_def power_add)
  have pos: "(0::real) < 2 ^ p / 2 ^ k" by simp
  have "m < 2 ^ (k + 1) * (2 ^ p / 2 ^ k)"
    unfolding e using s(2) pos by (rule mult_strict_right_mono)
  also have "\<dots> = 2 ^ (p + 1)" by (simp add: power_add)
  finally have "m \<le> of_int (2 ^ (p + 1))" by simp
  then have "rne m \<le> rne (of_int (2 ^ (p + 1)))" by (rule rne_mono)
  then have "rne m \<le> 2 ^ (p + 1)" by (simp only: rne_int)
  then have "real_of_int (rne m) \<le> real_of_int (2 ^ (p + 1))" by (simp only: of_int_le_iff)
  then have "real_of_int (rne m) * 2 ^ k \<le> 2 ^ (p + 1) * 2 ^ k" by (simp add: mult_right_mono)
  then show "roundTo a p x * 2 ^ (a + p) \<le> 2 ^ (p + 1 + k)" unfolding fx by (simp add: power_add)
  show "2 ^ (p + k) \<le> roundTo a p x * 2 ^ (a + p)" if "1 \<le> k"
  proof -
    have "2 ^ k * (2 ^ p / 2 ^ k) \<le> x * 2 ^ a * (2 ^ p / 2 ^ k)"
      using s(3)[OF that] pos by (intro mult_right_mono) simp_all
    then have "of_int (2 ^ p) \<le> m" unfolding e by simp
    then have "rne (of_int (2 ^ p)) \<le> rne m" by (rule rne_mono)
    then have "2 ^ p \<le> rne m" by (simp only: rne_int)
    then have "real_of_int (2 ^ p) \<le> real_of_int (rne m)" by (simp only: of_int_le_iff)
    then have "2 ^ p * 2 ^ k \<le> real_of_int (rne m) * 2 ^ k" by (simp add: mult_right_mono)
    then show ?thesis unfolding fx by (simp add: power_add)
  qed
qed

lemma roundTo_mono_nonneg:
  assumes "0 \<le> x" "x \<le> y"
  shows "roundTo a p x \<le> roundTo a p y"
proof -
  define kx where "kx = nat (bitlen \<lfloor>x * 2 ^ a\<rfloor> - 1)"
  define ky where "ky = nat (bitlen \<lfloor>y * 2 ^ a\<rfloor> - 1)"
  have y0: "0 \<le> y" using assms by simp
  note sx = roundTo_scale[OF assms(1) kx_def]
    and sy = roundTo_scale[OF y0 ky_def]
  note wx = roundTo_window[OF assms(1) kx_def, where p = p]
    and wy = roundTo_window[OF y0 ky_def, where p = p]
  have xy: "x * 2 ^ a \<le> y * 2 ^ a" using assms(2) by simp
  have le: "kx \<le> ky"
  proof (rule ccontr)
    assume "\<not> kx \<le> ky"
    then have gt: "ky + 1 \<le> kx" by simp
    then have "1 \<le> kx" by simp
    from sx(3)[OF this] have "2 ^ kx \<le> x * 2 ^ a" .
    moreover have "(2::real) ^ (ky + 1) \<le> 2 ^ kx" using gt by (rule power_increasing) simp
    ultimately show False using sy(2) xy by linarith
  qed
  show ?thesis
  proof (cases "kx = ky")
    case True
    have "x * 2 ^ (a + p) / 2 ^ ky \<le> y * 2 ^ (a + p) / 2 ^ ky"
      using assms(2) by (simp add: divide_right_mono)
    then have "rne (x * 2 ^ (a + p) / 2 ^ ky) \<le> rne (y * 2 ^ (a + p) / 2 ^ ky)" by (rule rne_mono)
    then have "real_of_int (rne (x * 2 ^ (a + p) / 2 ^ ky))
                 \<le> real_of_int (rne (y * 2 ^ (a + p) / 2 ^ ky))"
      by (simp only: of_int_le_iff)
    then show ?thesis unfolding sx(1) sy(1) True
      by (simp add: divide_right_mono mult_right_mono)
  next
    case False
    with le have lt: "kx + 1 \<le> ky" by simp
    then have k1: "1 \<le> ky" by simp
    have "(2::real) ^ (p + 1 + kx) \<le> 2 ^ (p + ky)" using lt by (intro power_increasing) simp_all
    with wx(2) wy(3)[OF k1]
    have "roundTo a p x * 2 ^ (a + p) \<le> roundTo a p y * 2 ^ (a + p)" by linarith
    then show ?thesis by simp
  qed
qed

lemma roundTo_mono:
  assumes "x \<le> y"
  shows "roundTo a p x \<le> roundTo a p y"
proof (cases "0 \<le> x")
  case True
  then show ?thesis using assms by (rule roundTo_mono_nonneg)
next
  case xneg: False
  show ?thesis
  proof (cases "0 \<le> y")
    case True
    have "0 \<le> roundTo a p (- x)" using xneg by (intro roundTo_window(1)[OF _ refl]) simp
    then have "roundTo a p x \<le> 0" by (simp add: roundTo_minus)
    with roundTo_window(1)[OF True refl, of a p] show ?thesis by linarith
  next
    case False
    then have "0 \<le> - y" "- y \<le> - x" using assms by simp_all
    then have "roundTo a p (- y) \<le> roundTo a p (- x)" by (rule roundTo_mono_nonneg)
    then show ?thesis by (simp add: roundTo_minus)
  qed
qed

lemma roundTo_exact:
  fixes n :: int
  assumes "\<bar>n\<bar> < 2 ^ (p + 1)" "j \<le> a + p"
  shows "roundTo a p (of_int n / 2 ^ j) = of_int n / 2 ^ j"
proof -
  have pos: "roundTo a p (of_int n / 2 ^ j) = of_int n / 2 ^ j"
    if n0: "0 \<le> n" and nb: "n < 2 ^ (p + 1)" for n :: int
  proof -
    define x :: real where "x = of_int n / 2 ^ j"
    define k where "k = nat (bitlen \<lfloor>x * 2 ^ a\<rfloor> - 1)"
    have x0: "0 \<le> x" using n0 by (simp add: x_def)
    note s = roundTo_scale[OF x0 k_def]
    have kj: "k + j \<le> a + p"
    proof (cases "1 \<le> k")
      case False
      then show ?thesis using assms(2) by simp
    next
      case True
      from s(3)[OF True] have "2 ^ k \<le> real_of_int n * 2 ^ a / 2 ^ j" by (simp add: x_def)
      then have "2 ^ k * 2 ^ j \<le> real_of_int n * 2 ^ a" by (simp add: field_simps)
      moreover have "real_of_int n < real_of_int (2 ^ (p + 1))" using nb by (simp only: of_int_less_iff)
      then have "real_of_int n < 2 ^ (p + 1)" by simp
      then have "real_of_int n * 2 ^ a < 2 ^ (p + 1) * 2 ^ a" by (rule mult_strict_right_mono) simp
      ultimately have "(2::real) ^ k * 2 ^ j < 2 ^ (p + 1) * 2 ^ a" by linarith
      then have "(2::real) ^ (k + j) < 2 ^ (p + 1 + a)" by (simp only: power_add)
      then have "k + j < p + 1 + a" by (rule power_less_imp_less_exp[rotated]) simp
      then show ?thesis by simp
    qed
    define t where "t = a + p - (k + j)"
    have "a + p = t + k + j" unfolding t_def using kj by simp
    then have q: "(2::real) ^ (a + p) = 2 ^ t * 2 ^ k * 2 ^ j"
      by (simp add: power_add)
    have "x * 2 ^ (a + p) / 2 ^ k = of_int (n * 2 ^ t)"
      unfolding x_def q by simp
    then have "rne (x * 2 ^ (a + p) / 2 ^ k) = n * 2 ^ t" by (simp only: rne_int)
    then have "roundTo a p x = of_int (n * 2 ^ t) * 2 ^ k / 2 ^ (a + p)" unfolding s(1) by simp
    also have "\<dots> = x" unfolding x_def q by simp
    finally show ?thesis unfolding x_def .
  qed
  show ?thesis
  proof (cases "0 \<le> n")
    case True
    with assms(1) show ?thesis by (intro pos) simp_all
  next
    case False
    with assms(1) have "roundTo a p (of_int (- n) / 2 ^ j) = of_int (- n) / 2 ^ j"
      by (intro pos) simp_all
    then have "roundTo a p (- (of_int n / 2 ^ j)) = - (of_int n / 2 ^ j)" by simp
    then show ?thesis by (simp only: roundTo_minus neg_equal_iff_equal)
  qed
qed

lemma roundTo_small:
  assumes "1 \<le> \<bar>x\<bar> * 2 ^ m" "\<bar>x\<bar> * 2 ^ m < 2" "m \<le> a"
  shows "roundTo a p x = of_int (rne (x * 2 ^ (m + p))) / 2 ^ (m + p)"
proof -
  define k where "k = a - m"
  have "a = m + k" unfolding k_def using assms(3) by simp
  then have q: "(2::real) ^ a = 2 ^ m * 2 ^ k" "(2::real) ^ (a + p) = 2 ^ (m + p) * 2 ^ k"
    by (simp_all add: power_add)
  have "1 * 2 ^ k \<le> \<bar>x\<bar> * 2 ^ m * 2 ^ k" using assms(1) by (rule mult_right_mono) simp
  then have "2 ^ k \<le> \<bar>x\<bar> * 2 ^ a" unfolding q by (simp add: mult.assoc)
  moreover have "\<bar>x\<bar> * 2 ^ m * 2 ^ k < 2 * 2 ^ k" using assms(2) by (rule mult_strict_right_mono) simp
  then have "\<bar>x\<bar> * 2 ^ a < 2 ^ (k + 1)" unfolding q by (simp add: mult.assoc)
  ultimately have "roundTo a p x = of_int (rne (x * 2 ^ (a + p) / 2 ^ k)) * 2 ^ k / 2 ^ (a + p)"
    by (rule roundTo_at)
  then show ?thesis unfolding q(2) by simp
qed

lemma roundTo_big:
  assumes "2 ^ j \<le> \<bar>x\<bar>" "\<bar>x\<bar> < 2 ^ (j + 1)" "j \<le> p"
  shows "roundTo a p x = of_int (rne (x * 2 ^ (p - j))) / 2 ^ (p - j)"
proof -
  define k where "k = a + j"
  have "a + p = (p - j) + k" unfolding k_def using assms(3) by simp
  then have q: "(2::real) ^ (a + p) = 2 ^ (p - j) * 2 ^ k" by (simp only: power_add)
  have q2: "(2::real) ^ k = 2 ^ j * 2 ^ a" "(2::real) ^ (k + 1) = 2 ^ (j + 1) * 2 ^ a"
    unfolding k_def by (simp_all add: power_add)
  have "2 ^ j * 2 ^ a \<le> \<bar>x\<bar> * 2 ^ a" using assms(1) by (rule mult_right_mono) simp
  then have "2 ^ k \<le> \<bar>x\<bar> * 2 ^ a" unfolding q2 .
  moreover have "\<bar>x\<bar> * 2 ^ a < 2 ^ (j + 1) * 2 ^ a" using assms(2) by (rule mult_strict_right_mono) simp
  then have "\<bar>x\<bar> * 2 ^ a < 2 ^ (k + 1)" unfolding q2 .
  ultimately have "roundTo a p x = of_int (rne (x * 2 ^ (a + p) / 2 ^ k)) * 2 ^ k / 2 ^ (a + p)"
    by (rule roundTo_at)
  then show ?thesis unfolding q by simp
qed

lemma fl_zero: "fl 0 = 0"
  unfolding fl_def by (rule roundTo_zero)


lemma fl_mono: "x \<le> y \<Longrightarrow> fl x \<le> fl y"
  unfolding fl_def by (rule roundTo_mono)

lemma fl_nonneg: "0 \<le> x \<Longrightarrow> 0 \<le> fl x"
  using fl_mono[of 0 x] by (simp add: fl_zero)

lemma fl_exact:
  fixes n :: int
  assumes "\<bar>n\<bar> < 2 ^ 53" "j \<le> 1074"
  shows "fl (of_int n / 2 ^ j) = of_int n / 2 ^ j"
  unfolding fl_def using assms by (intro roundTo_exact) simp_all

lemma fl_int:
  fixes n :: int
  assumes "\<bar>n\<bar> < 2 ^ 53"
  shows "fl (of_int n) = of_int n"
  using fl_exact[OF assms, of 0] by simp

lemma fl_small:
  assumes "1 \<le> \<bar>x\<bar> * 2 ^ m" "\<bar>x\<bar> * 2 ^ m < 2" "m \<le> 1022"
  shows "fl x = of_int (rne (x * 2 ^ (m + 52))) / 2 ^ (m + 52)"
  unfolding fl_def using assms by (rule roundTo_small)

lemma fl_big:
  assumes "2 ^ j \<le> \<bar>x\<bar>" "\<bar>x\<bar> < 2 ^ (j + 1)" "j \<le> 52"
  shows "fl x = of_int (rne (x * 2 ^ (52 - j))) / 2 ^ (52 - j)"
  unfolding fl_def using assms by (rule roundTo_big)

lemma fl_one: "fl 1 = 1"
  using fl_int[of 1] by simp

lemma roundTo_grid: "\<exists>N :: int. roundTo a p x = of_int N / 2 ^ (a + p)"
proof -
  define k where "k = nat (bitlen \<lfloor>\<bar>x\<bar> * 2 ^ a\<rfloor> - 1)"
  have "roundTo a p x = of_int (rne (x * 2 ^ (a + p) / 2 ^ k) * 2 ^ k) / 2 ^ (a + p)"
    by (simp add: roundTo_def Let_def k_def)
  then show ?thesis ..
qed

lemma roundTo_diff_pos:
  assumes "roundTo a p u < roundTo a p v"
  shows "0 < roundTo a p (roundTo a p v - roundTo a p u)"
proof -
  obtain N M :: int where
    v: "roundTo a p v = of_int N / 2 ^ (a + p)" and u: "roundTo a p u = of_int M / 2 ^ (a + p)"
    using roundTo_grid[of a p v] roundTo_grid[of a p u] by blast
  have "real_of_int M < real_of_int N" using assms unfolding u v by (simp add: divide_less_cancel)
  then have "M + 1 \<le> N" by simp
  then have "real_of_int (M + 1) \<le> real_of_int N" by (simp only: of_int_le_iff)
  then have "1 \<le> real_of_int N - real_of_int M" by simp
  then have "1 / 2 ^ (a + p) \<le> (real_of_int N - real_of_int M) / 2 ^ (a + p)"
    by (rule divide_right_mono) simp
  then have "of_int 1 / 2 ^ (a + p) \<le> roundTo a p v - roundTo a p u"
    unfolding u v by (simp add: diff_divide_distrib)
  then have "roundTo a p (of_int 1 / 2 ^ (a + p)) \<le> roundTo a p (roundTo a p v - roundTo a p u)"
    by (rule roundTo_mono)
  moreover have "(1::int) < 2 ^ (p + 1)" by (rule one_less_power) simp_all
  then have "roundTo a p (of_int 1 / 2 ^ (a + p)) = of_int 1 / 2 ^ (a + p)"
    by (intro roundTo_exact) simp_all
  moreover have "(0::real) < of_int 1 / 2 ^ (a + p)" by simp
  ultimately show ?thesis by linarith
qed

lemma fl_diff_pos: "fl u < fl v \<Longrightarrow> 0 < fl (fl v - fl u)"
  unfolding fl_def by (rule roundTo_diff_pos)


section \<open>Properties of the histogram builder in double arithmetic\<close>

text \<open>
  No division of \<open>rgbToHsl\<close> is a division by zero, for channels between 0 and 255:
  when the largest and the smallest channel differ, the three divisors are above zero.
  The same holds of the bin size.
\<close>

lemma rgbToHsl_f64_divisors:
  assumes "0 \<le> r0" "r0 \<le> 255" "0 \<le> g0" "g0 \<le> 255" "0 \<le> b0" "b0 \<le> 255"
    and mx: "mx = max (max (fl (r0 / 255)) (fl (g0 / 255))) (fl (b0 / 255))"
    and mn: "mn = min (min (fl (r0 / 255)) (fl (g0 / 255))) (fl (b0 / 255))"
    and ne: "mx \<noteq> mn"
  shows "0 < fl (mx - mn)" "0 < fl (mx + mn)" "0 < fl (fl (2 - mx) - mn)"
proof -
  have lo: "0 \<le> fl (r0 / 255)" "0 \<le> fl (g0 / 255)" "0 \<le> fl (b0 / 255)"
    using assms(1,3,5) by (simp_all add: fl_nonneg)
  have "fl (r0 / 255) \<le> fl 1" "fl (g0 / 255) \<le> fl 1" "fl (b0 / 255) \<le> fl 1"
    using assms(2,4,6) by (simp_all add: fl_mono)
  then have hi: "fl (r0 / 255) \<le> 1" "fl (g0 / 255) \<le> 1" "fl (b0 / 255) \<le> 1"
    by (simp_all only: fl_one)
  have "mx = fl (r0 / 255) \<or> mx = fl (g0 / 255) \<or> mx = fl (b0 / 255)"
    unfolding mx by (auto simp: max_def)
  then obtain x where x: "mx = fl x" by blast
  have "mn = fl (r0 / 255) \<or> mn = fl (g0 / 255) \<or> mn = fl (b0 / 255)"
    unfolding mn by (auto simp: min_def)
  then obtain y where y: "mn = fl y" by blast
  have mn0: "0 \<le> mn" and mx1: "mx \<le> 1" using lo hi by (auto simp: mx mn)
  have "mn \<le> mx" by (auto simp: mx mn)
  with ne have lt: "fl y < fl x" unfolding x y by simp
  from fl_diff_pos[OF lt] show d: "0 < fl (mx - mn)" unfolding x y .
  have "mx - mn \<le> mx + mn" using mn0 by simp
  then have "fl (mx - mn) \<le> fl (mx + mn)" by (rule fl_mono)
  with d show "0 < fl (mx + mn)" by linarith
  have "1 \<le> 2 - mx" using mx1 by simp
  then have "fl 1 \<le> fl (2 - mx)" by (rule fl_mono)
  then have "mx \<le> fl (2 - mx)" using mx1 by (simp only: fl_one)
  with lt have "fl y < fl (2 - mx)" unfolding x by linarith
  from fl_diff_pos[OF this] show "0 < fl (fl (2 - mx) - mn)" unfolding y .
qed

lemma binSize_pos:
  assumes "1 \<le> bins" "bins < 2 ^ 32"
  shows "0 < fl (360 / real_of_int bins)"
proof -
  have "real_of_int bins < real_of_int (2 ^ 32)" using assms(2) by (simp only: of_int_less_iff)
  then have b: "real_of_int bins \<le> 2 ^ 32" by simp
  have b0: "0 < real_of_int bins" using assms(1) by simp
  have "1 / 2 ^ 32 \<le> 1 / real_of_int bins" using b b0 by (simp add: field_simps)
  also have "\<dots> \<le> 360 / real_of_int bins" using b0 by (simp add: field_simps)
  finally have "fl (of_int 1 / 2 ^ 32) \<le> fl (360 / real_of_int bins)" by (intro fl_mono) simp
  moreover have "fl (of_int 1 / 2 ^ 32) = of_int 1 / 2 ^ 32" by (rule fl_exact) simp_all
  ultimately show ?thesis by simp
qed













text \<open>
  The pixel \<open>(204, 255, 0)\<close> in 35 bins. In doubles \<open>204 / 255\<close> is a little
  above \<open>0.8\<close>, the hue comes out as exactly 72 degrees, the bin size \<open>360 / 35\<close>
  is rounded up, and \<open>72 / binSize\<close> is \<open>6.999999999999999\<close>: the pixel goes to
  bin 6, where exact arithmetic has \<open>72 / (360 / 35) = 7\<close>.
\<close>

lemma fl_half: "fl (1 / 2) = 1 / 2"
  using fl_exact[of 1 1] by simp







lemma weight_100_50: "fl (fl (100 / 100) * fl (1 - fl (\<bar>50 - 50\<bar> / 50))) = 1"
  by (simp add: fl_zero fl_one)


text \<open>
  The conversion of two more pixels in doubles. Exact arithmetic gives the first a hue of
  198 and the second a saturation of 88: both are ties of the final \<open>Math.round\<close>,
  and the doubles fall just below them.
\<close>

lemma hsl_16_84_112: "rgbToHsl_f64 16 84 112 = (197, 75, 25)"
proof -
  have e1: "fl (16 / 255) = 282578800148737 / 4503599627370496"
    by (subst fl_small[where m = 4]) (simp_all add: rne_def)
  have e2: "fl (84 / 255) = 5934154803123477 / 18014398509481984"
    by (subst fl_small[where m = 2]) (simp_all add: rne_def)
  have e3: "fl (112 / 255) = 1978051601041159 / 4503599627370496"
    by (subst fl_small[where m = 2]) (simp_all add: rne_def)
  have e4: "max (max (282578800148737 / 4503599627370496) (5934154803123477 / 18014398509481984)) (1978051601041159 / 4503599627370496)
        = ((1978051601041159 / 4503599627370496) :: real)"
    by simp
  have e5: "min (min (282578800148737 / 4503599627370496) (5934154803123477 / 18014398509481984)) (1978051601041159 / 4503599627370496)
        = ((282578800148737 / 4503599627370496) :: real)"
    by simp
  have e6: "fl ((1978051601041159 / 4503599627370496) + (282578800148737 / 4503599627370496))
        = 282578800148737 / 562949953421312"
    using fl_exact[of "282578800148737" 49] by simp
  have e7: "fl ((282578800148737 / 562949953421312) / 2) = 282578800148737 / 1125899906842624"
    using fl_exact[of "282578800148737" 50] by simp
  have e8: "fl ((1978051601041159 / 4503599627370496) - (282578800148737 / 4503599627370496))
        = 847736400446211 / 2251799813685248"
    using fl_exact[of "847736400446211" 51] by simp
  have e9: "fl ((847736400446211 / 2251799813685248) / (282578800148737 / 562949953421312))
        = 3 / 4"
    using fl_exact[of "3" 2] by simp
  have e10: "fl ((282578800148737 / 4503599627370496) - (5934154803123477 / 18014398509481984))
        = - (4803839602528529 / 18014398509481984)"
    using fl_exact[of "-4803839602528529" 54] by simp
  have e11: "fl ((- (4803839602528529 / 18014398509481984))
          / (847736400446211 / 2251799813685248))
        = - (6380099472108203 / 9007199254740992)"
    by (subst fl_small[where m = 1]) (simp_all add: rne_def)
  have e12: "fl ((- (6380099472108203 / 9007199254740992)) + 4)
        = 7412174386713941 / 2251799813685248"
    by (subst fl_big[where j = 1]) (simp_all add: rne_def)
  have e13: "fl ((7412174386713941 / 2251799813685248) / 6) = 4941449591142627 / 9007199254740992"
    by (subst fl_small[where m = 1]) (simp_all add: rne_def)
  have e14: "fl ((222365231601418215 / 1125899906842624)) = 6948913487544319 / 35184372088832"
    by (subst fl_big[where j = 7]) (simp_all add: rne_def)
  have e15: "fl (75) = 75"
    using fl_exact[of "75" 0] by simp
  have e16: "fl ((7064470003718425 / 281474976710656)) = 7064470003718425 / 281474976710656"
    using fl_exact[of "7064470003718425" 48] by simp
  show ?thesis
    unfolding rgbToHsl_f64_def Let_def e1 e2 e3 e4 e5 e6 e7 e8 e9 e10 e11 e12 e13
    by (simp add: js_round_def e14 e15 e16)
qed

lemma hsl_7_7_105: "rgbToHsl_f64 7 7 105 = (240, 87, 22)"
proof -
  have e1: "fl (7 / 255) = 1978051601041159 / 72057594037927936"
    by (subst fl_small[where m = 6]) (simp_all add: rne_def)
  have e2: "fl (7 / 255) = 1978051601041159 / 72057594037927936"
    by (subst fl_small[where m = 6]) (simp_all add: rne_def)
  have e3: "fl (105 / 255) = 3708846751952173 / 9007199254740992"
    by (subst fl_small[where m = 2]) (simp_all add: rne_def)
  have e4: "max (max (1978051601041159 / 72057594037927936) (1978051601041159 / 72057594037927936)) (3708846751952173 / 9007199254740992)
        = ((3708846751952173 / 9007199254740992) :: real)"
    by simp
  have e5: "min (min (1978051601041159 / 72057594037927936) (1978051601041159 / 72057594037927936)) (3708846751952173 / 9007199254740992)
        = ((1978051601041159 / 72057594037927936) :: real)"
    by simp
  have e6: "fl ((3708846751952173 / 9007199254740992) + (1978051601041159 / 72057594037927936))
        = 1978051601041159 / 4503599627370496"
    by (subst fl_small[where m = 2]) (simp_all add: rne_def)
  have e7: "fl ((1978051601041159 / 4503599627370496) / 2) = 1978051601041159 / 9007199254740992"
    using fl_exact[of "1978051601041159" 53] by simp
  have e8: "fl ((3708846751952173 / 9007199254740992) - (1978051601041159 / 72057594037927936))
        = 865397575455507 / 2251799813685248"
    by (subst fl_small[where m = 2]) (simp_all add: rne_def)
  have e9: "fl ((865397575455507 / 2251799813685248) / (1978051601041159 / 4503599627370496))
        = 7881299347898367 / 9007199254740992"
    by (subst fl_small[where m = 1]) (simp_all add: rne_def)
  have e10: "fl ((1978051601041159 / 72057594037927936) - (1978051601041159 / 72057594037927936))
        = 0"
    using fl_exact[of "0" 0] by simp
  have e11: "fl (0 / (865397575455507 / 2251799813685248)) = 0"
    using fl_exact[of "0" 0] by simp
  have e12: "fl (0 + 4) = 4"
    using fl_exact[of "4" 0] by simp
  have e13: "fl (4 / 6) = 6004799503160661 / 9007199254740992"
    by (subst fl_small[where m = 1]) (simp_all add: rne_def)
  have e14: "fl ((270215977642229745 / 1125899906842624)) = 240"
    by (subst fl_big[where j = 7]) (simp_all add: rne_def)
  have e15: "fl ((197032483697459175 / 2251799813685248)) = 6157265115545599 / 70368744177664"
    by (subst fl_big[where j = 6]) (simp_all add: rne_def)
  have e16: "fl ((49451290026028975 / 2251799813685248)) = 3090705626626811 / 140737488355328"
    by (subst fl_big[where j = 4]) (simp_all add: rne_def)
  show ?thesis
    unfolding rgbToHsl_f64_def Let_def e1 e2 e3 e4 e5 e6 e7 e8 e9 e10 e11 e12 e13
    by (simp add: js_round_def e14 e15 e16)
qed

lemma exact_hsl_16_84_112: "rgbToHsl 16 84 112 = (198, 75, 25)"
  by (simp add: rgbToHsl_def js_round_def Let_def)

lemma exact_hsl_7_7_105: "rgbToHsl 7 7 105 = (240, 88, 22)"
  by (simp add: rgbToHsl_def js_round_def Let_def)

section \<open>Errors\<close>

lemma findValleysE_ok: "findValleysE peaks hist = Inr (findValleys peaks hist)"
proof (cases "length peaks = 1")
  case True
  then show ?thesis by (simp add: findValleysE_def definedAt_def)
next
  case False
  have "definedAt peaks (int i) \<and>
        definedAt peaks (circularIndex (int i - 1) (int (length peaks))) \<and>
        definedAt peaks (circularIndex (int i + 1) (int (length peaks)))"
    if "i < length peaks" for i
  proof -
    from that have n: "0 < int (length peaks)" by (cases peaks) simp_all
    from circularIndex_range[OF n] that show ?thesis by (auto simp: definedAt_def)
  qed
  then show ?thesis using False by (simp add: findValleysE_def list_all_iff)
qed

lemma scanReads_ok: "scanReads peaks"
proof -
  have "(i + 1) mod length peaks < length peaks" if "i < length peaks" for i
  proof -
    from that have "0 < length peaks" by (cases peaks) simp_all
    then show ?thesis by (rule mod_less_divisor)
  qed
  then show ?thesis by (simp add: scanReads_def list_all_iff definedAt_def)
qed

lemma mergeReads_ok:
  assumes "0 \<le> findBestPair hist peaks"
  shows "mergeReads peaks (findBestPair hist peaks)"
proof -
  from findBestPair_less[OF assms] have k: "findBestPair hist peaks < int (length peaks)"
    using assms by (simp add: nat_less_iff)
  then have n: "0 < int (length peaks)" using assms by linarith
  from k assms n show ?thesis
    by (simp add: mergeReads_def definedAt_def)
qed

lemma mergeAdjacentPeaksE_ok:
  "mergeAdjacentPeaksE peaks hist maxPeaks = Inr (mergeAdjacentPeaks peaks hist maxPeaks)"
proof (induction peaks hist maxPeaks rule: mergeAdjacentPeaks.induct)
  case (1 peaks hist maxPeaks)
  show ?case
  proof (cases "int (length peaks) > maxPeaks \<and> findBestPair hist peaks \<ge> 0")
    case True
    from "1.IH"[OF True] True show ?thesis
      by (subst mergeAdjacentPeaksE.simps, subst mergeAdjacentPeaks.simps)
         (simp add: scanReads_ok mergeReads_ok)
  next
    case False
    then show ?thesis
      by (subst mergeAdjacentPeaksE.simps, subst mergeAdjacentPeaks.simps)
         (auto simp: scanReads_ok)
  qed
qed

lemma extractPeaksE_ok: "extractPeaksE d m = Inr (extractPeaks d m)"
  by (simp add: extractPeaksE_def extractPeaks_def aggregatedPeaks_def Let_def
        findValleysE_ok mergeAdjacentPeaksE_ok)

lemma js_get_take:
  assumes "0 \<le> j" "j < int n"
  shows "js_get (take n xs) j = js_get xs j"
  using assms by (auto simp: js_get_def nat_less_iff)

lemma arcTotals_take:
  assumes "0 \<le> j" "j < int (length hist)" "0 \<le> e" "e < int (length hist)"
  shows "arcTotals hist (take (length hist) ss) (take (length hist) ls) e j w s l
           = arcTotals hist ss ls e j w s l"
  using assms
proof (induction hist ss ls e j w s l rule: arcTotals.induct)
  case (1 hist ss ls e j w s l)
  note g = js_get_take[OF "1.prems"(1,2)] js_get_take[OF "1.prems"(3,4)]
  show ?case
  proof (cases "j = e")
    case True
    then show ?thesis
      by (subst arcTotals.simps, subst (2) arcTotals.simps) (simp add: Let_def g)
  next
    case False
    let ?j' = "circularIndex (j + 1) (int (length hist))"
    have n: "0 < int (length hist)" using "1.prems" by linarith
    have r: "0 \<le> ?j'" "?j' < int (length hist)"
      using circularIndex_range[OF n] by simp_all
    have ih: "arcTotals hist (take (length hist) ss) (take (length hist) ls) e ?j'
                 (w + hist ! nat j) (nan_add s (js_get ss j)) (nan_add l (js_get ls j))
            = arcTotals hist ss ls e ?j'
                 (w + hist ! nat j) (nan_add s (js_get ss j)) (nan_add l (js_get ls j))"
      using "1.IH"[OF refl refl refl refl _ r "1.prems"(3,4)] False "1.prems" by simp
    show ?thesis
      using False "1.prems" ih
      by (subst arcTotals.simps, subst (2) arcTotals.simps) (simp add: Let_def g)
  qed
qed

lemma toHuePeak_take:
  assumes "hist \<noteq> []"
  shows "toHuePeak hist (take (length hist) ss) (take (length hist) ls) p = toHuePeak hist ss ls p"
proof -
  have n: "0 < int (length hist)" using assms by simp
  note r = circularIndex_range[OF n]
  have "arcTotals hist (take (length hist) ss) (take (length hist) ls)
          (circularIndex (rightValley p) (int (length hist)))
          (circularIndex (leftValley p) (int (length hist))) 0 (Some 0) (Some 0)
        = arcTotals hist ss ls
          (circularIndex (rightValley p) (int (length hist)))
          (circularIndex (leftValley p) (int (length hist))) 0 (Some 0) (Some 0)"
    using r by (intro arcTotals_take) simp_all
  then show ?thesis by (simp add: toHuePeak_def Let_def)
qed

lemma extractPeaks_take:
  assumes "findLocalPeaks (histogram d) \<noteq> []"
  shows "extractPeaks (d\<lparr>saturationSum := take (length (histogram d)) (saturationSum d),
                         lightnessSum := take (length (histogram d)) (lightnessSum d)\<rparr>) m
         = extractPeaks d m"
proof -
  have ne: "histogram d \<noteq> []" using assms by (auto simp: findLocalPeaks_def)
  have "convertToHuePeaks lps (histogram d) (take (length (histogram d)) (saturationSum d))
            (take (length (histogram d)) (lightnessSum d))
          = convertToHuePeaks lps (histogram d) (saturationSum d) (lightnessSum d)" for lps
    by (simp add: convertToHuePeaks_def toHuePeak_take[OF ne])
  then show ?thesis
    using assms by (simp add: extractPeaks_def aggregatedPeaks_def Let_def)
qed

lemma average_fallback: "\<not> 0 < w \<Longrightarrow> average w t = Some 50"
  by (simp add: average_def)

lemma flatCluster_averages:
  "avgSaturation (flatCluster h ss ls) = average (sum_list h) (Some (sum_list ss))"
  "avgLightness (flatCluster h ss ls) = average (sum_list h) (Some (sum_list ls))"
  by (simp_all add: flatCluster_def Let_def)

text \<open>
  Claim C9, as the code has it. \<open>extractHueHistogram\<close> fails with a \<open>RangeError\<close>,
  raised by \<open>new Array(bins)\<close>, when the bin count is negative; for a bin count between
  0 and \<open>2^32 - 1\<close> it returns three arrays of \<open>bins\<close> entries and raises nothing.
  \<open>extractPeaks\<close> has no check of its argument: every read of a peak object is inside
  the array of peaks, so it raises nothing, whatever the three arrays are. It returns the
  empty list for an empty histogram. When the histogram has a local peak, the saturation
  and lightness arrays are only read at the bins of the histogram: the result is the
  result for the two arrays cut to the length of the histogram. When the histogram is
  not empty and has no local peak, the one cluster returned has the sums of the three
  arrays, each over its own length.
\<close>

theorem error_behaviour:
  "(bins < 0 \<longrightarrow> extractHueHistogram imageData bins = Inl RangeError) \<and>
   (0 \<le> bins \<and> bins < 2 ^ 32 \<longrightarrow>
      (\<exists>h. extractHueHistogram imageData bins = Inr h \<and> length (histogram h) = nat bins \<and>
           length (saturationSum h) = nat bins \<and> length (lightnessSum h) = nat bins)) \<and>
   extractPeaksE d maxPeaks = Inr (extractPeaks d maxPeaks) \<and>
   (histogram d = [] \<longrightarrow> extractPeaks d maxPeaks = []) \<and>
   (findLocalPeaks (histogram d) \<noteq> [] \<longrightarrow>
      extractPeaks (d\<lparr>saturationSum := take (length (histogram d)) (saturationSum d),
                      lightnessSum := take (length (histogram d)) (lightnessSum d)\<rparr>) maxPeaks
        = extractPeaks d maxPeaks) \<and>
   (histogram d \<noteq> [] \<and> findLocalPeaks (histogram d) = [] \<longrightarrow>
      extractPeaks d maxPeaks =
        [\<lparr>startHue = 0, endHue = 0,
          peakHue = int (maxIndex (histogram d)),
          peakValue = histogram d ! maxIndex (histogram d),
          totalWeight = sum_list (histogram d),
          avgSaturation = (if sum_list (histogram d) > 0
                           then Some (sum_list (saturationSum d) / sum_list (histogram d))
                           else Some 50),
          avgLightness = (if sum_list (histogram d) > 0
                          then Some (sum_list (lightnessSum d) / sum_list (histogram d))
                          else Some 50)\<rparr>])"
proof (intro conjI impI)
  assume "bins < 0"
  then show "extractHueHistogram imageData bins = Inl RangeError"
    by (simp add: extractHueHistogram_def)
next
  assume "0 \<le> bins \<and> bins < 2 ^ 32"
  then have b: "0 \<le> bins" "bins < 2 ^ 32" by simp_all
  from extractHueHistogram_Inr(1,2)[OF b, of imageData]
  show "\<exists>h. extractHueHistogram imageData bins = Inr h \<and> length (histogram h) = nat bins \<and>
           length (saturationSum h) = nat bins \<and> length (lightnessSum h) = nat bins"
    by (simp add: histOk_def)
next
  show "extractPeaksE d maxPeaks = Inr (extractPeaks d maxPeaks)" by (rule extractPeaksE_ok)
next
  assume "histogram d = []"
  then show "extractPeaks d maxPeaks = []" by (simp add: extractPeaks_def)
next
  assume "findLocalPeaks (histogram d) \<noteq> []"
  then show "extractPeaks (d\<lparr>saturationSum := take (length (histogram d)) (saturationSum d),
                      lightnessSum := take (length (histogram d)) (lightnessSum d)\<rparr>) maxPeaks
        = extractPeaks d maxPeaks"
    by (rule extractPeaks_take)
next
  assume "histogram d \<noteq> [] \<and> findLocalPeaks (histogram d) = []"
  then show "extractPeaks d maxPeaks =
        [\<lparr>startHue = 0, endHue = 0,
          peakHue = int (maxIndex (histogram d)),
          peakValue = histogram d ! maxIndex (histogram d),
          totalWeight = sum_list (histogram d),
          avgSaturation = (if sum_list (histogram d) > 0
                           then Some (sum_list (saturationSum d) / sum_list (histogram d))
                           else Some 50),
          avgLightness = (if sum_list (histogram d) > 0
                          then Some (sum_list (lightnessSum d) / sum_list (histogram d))
                          else Some 50)\<rparr>]"
    by (simp add: flat_result flatCluster_def average_def Let_def)
qed

lemma maxIndex_111: "maxIndex [1, 1, 1] = 0"
  by (simp add: maxIndex_def)

theorem error_behaviour_witness:
  "extractHueHistogram [(255, 0, 0, 255)] (- 1) = Inl RangeError \<and>
   (\<exists>h. extractHueHistogram [(255, 0, 0, 255)] 4 = Inr h \<and> length (histogram h) = nat 4 \<and>
        length (saturationSum h) = nat 4 \<and> length (lightnessSum h) = nat 4) \<and>
   extractPeaksE \<lparr>histogram = [0, 1, 0], saturationSum = [0, 50, 0, 7], lightnessSum = []\<rparr> 5
     = Inr (extractPeaks \<lparr>histogram = [0, 1, 0], saturationSum = [0, 50, 0, 7], lightnessSum = []\<rparr> 5) \<and>
   extractPeaks \<lparr>histogram = [], saturationSum = [], lightnessSum = []\<rparr> 5 = [] \<and>
   extractPeaks \<lparr>histogram = [0, 1, 0], saturationSum = [0, 50, 0], lightnessSum = []\<rparr> 5
     = extractPeaks \<lparr>histogram = [0, 1, 0], saturationSum = [0, 50, 0, 7], lightnessSum = []\<rparr> 5 \<and>
   extractPeaks \<lparr>histogram = [1, 1, 1], saturationSum = [50, 50, 50, 700], lightnessSum = []\<rparr> 5
     = [\<lparr>startHue = 0, endHue = 0, peakHue = 0, peakValue = 1, totalWeight = 3,
         avgSaturation = Some (850 / 3), avgLightness = Some 0\<rparr>]"
proof -
  let ?m = "\<lparr>histogram = [0, 1, 0], saturationSum = [0, 50, 0, 7], lightnessSum = []\<rparr>"
  let ?f = "\<lparr>histogram = [1, 1, 1], saturationSum = [50, 50, 50, 700], lightnessSum = []\<rparr>"
  have 1: "extractHueHistogram [(255, 0, 0, 255)] (- 1) = Inl RangeError"
    using error_behaviour[of "- 1" "[(255, 0, 0, 255)]"] by simp
  have 2: "\<exists>h. extractHueHistogram [(255, 0, 0, 255)] 4 = Inr h \<and> length (histogram h) = nat 4 \<and>
        length (saturationSum h) = nat 4 \<and> length (lightnessSum h) = nat 4"
    using error_behaviour[of 4 "[(255, 0, 0, 255)]"] by simp
  have 3: "extractPeaksE ?m 5 = Inr (extractPeaks ?m 5)"
    using error_behaviour[of _ _ ?m 5] by simp
  have 4: "extractPeaks \<lparr>histogram = [], saturationSum = [], lightnessSum = []\<rparr> 5 = []"
    using error_behaviour[of _ _ "\<lparr>histogram = [], saturationSum = [], lightnessSum = []\<rparr>" 5]
    by simp
  have 5: "extractPeaks \<lparr>histogram = [0, 1, 0], saturationSum = [0, 50, 0], lightnessSum = []\<rparr> 5
     = extractPeaks ?m 5"
    using error_behaviour[of _ _ ?m 5] localPeaks_010 by simp
  have 6: "extractPeaks ?f 5
     = [\<lparr>startHue = 0, endHue = 0, peakHue = 0, peakValue = 1, totalWeight = 3,
         avgSaturation = Some (850 / 3), avgLightness = Some 0\<rparr>]"
    using error_behaviour[of _ _ ?f 5] localPeaks_flat by (simp add: maxIndex_111)
  from 1 2 3 4 5 6 show ?thesis by blast
qed

lemma aggregated_mismatched:
  "aggregatedPeaks \<lparr>histogram = [0, 1, 0], saturationSum = [0, 50, 0, 7], lightnessSum = []\<rparr> 5 =
     [\<lparr>startHue = 2, endHue = 1, peakHue = 1, peakValue = 1, totalWeight = 1,
       avgSaturation = Some 50, avgLightness = None\<rparr>]"
  by code_simp

text \<open>
  Claim C9 as stated has \<open>extractPeaks\<close> reject arrays of different lengths. Here the
  histogram has 3 bins, the saturation array 4 entries and the lightness array none:
  \<open>extractPeaks\<close> returns a cluster, whose average lightness is not a number.
\<close>

theorem mismatched_lengths_accepted:
  "extractPeaks \<lparr>histogram = [0, 1, 0], saturationSum = [0, 50, 0, 7], lightnessSum = []\<rparr> 5 =
     [\<lparr>startHue = 2, endHue = 1, peakHue = 1, peakValue = 1, totalWeight = 1,
       avgSaturation = Some 50, avgLightness = None\<rparr>]"
  unfolding extractPeaks_def Let_def HistogramData.simps aggregated_mismatched
  using localPeaks_010
  by (simp add: mergeSimilarColors_def mergeStep_def filterByWeight_def)


end
